theory Spec2Isabelle
  imports Main "HOL-Library.AList" "HOL-Library.Sublist"
begin

section \<open>Strings of the JavaScript runtime\<close>

text \<open>
  A JavaScript string is a sequence of code units. The model uses \<^typ>\<open>string\<close>, a list of
  8-bit units read as the Latin-1 range of the code units; the functions below are the
  built-ins \<^verbatim>\<open>String.prototype.trim\<close> and \<^verbatim>\<open>String.prototype.toLowerCase\<close> on that range.
\<close>

definition isWhiteSpace :: "char \<Rightarrow> bool" where
  "isWhiteSpace c =
     (c \<in> set [CHR 0x09, CHR 0x0A, CHR 0x0B, CHR 0x0C, CHR 0x0D, CHR 0x20, CHR 0xA0])"

definition trim :: "string \<Rightarrow> string" where
  "trim s = rev (dropWhile isWhiteSpace (rev (dropWhile isWhiteSpace s)))"

definition toLowerCase_unit :: "char \<Rightarrow> char" where
  "toLowerCase_unit c =
     (let n = (of_char c :: nat)
      in if (65 \<le> n \<and> n \<le> 90) \<or> (192 \<le> n \<and> n \<le> 222 \<and> n \<noteq> 215)
         then char_of (n + 32) else c)"

definition toLowerCase :: "string \<Rightarrow> string" where
  "toLowerCase s = map toLowerCase_unit s"


section \<open>Arrays: \<^verbatim>\<open>Array.prototype.sort\<close> with a comparator\<close>

text \<open>
  \<^verbatim>\<open>xs.sort(cmp)\<close> is a stable sort: \<^verbatim>\<open>a\<close> is placed before \<^verbatim>\<open>b\<close> when
  \<^verbatim>\<open>cmp(a, b) < 0\<close>, and elements that compare equal keep their order. The model is the
  stable insertion sort; for a comparator that is not a consistent ordering the language
  leaves the order to the implementation, and the theorems about sorted results state the
  consistency they need.
\<close>

fun insert_by :: "('a \<Rightarrow> 'a \<Rightarrow> int) \<Rightarrow> 'a \<Rightarrow> 'a list \<Rightarrow> 'a list" where
  "insert_by cmp x [] = [x]"
| "insert_by cmp x (y # ys) =
     (if cmp x y \<le> 0 then x # y # ys else y # insert_by cmp x ys)"

definition sort_by :: "('a \<Rightarrow> 'a \<Rightarrow> int) \<Rightarrow> 'a list \<Rightarrow> 'a list" where
  "sort_by cmp xs = foldr (insert_by cmp) xs []"

text \<open>A comparator is consistent on a set when it orders it totally and transitively.\<close>

definition consistent_on :: "('a \<Rightarrow> 'a \<Rightarrow> int) \<Rightarrow> 'a set \<Rightarrow> bool" where
  "consistent_on cmp A =
     ((\<forall>a\<in>A. \<forall>b\<in>A. cmp a b \<le> 0 \<or> cmp b a \<le> 0) \<and>
      (\<forall>a\<in>A. \<forall>b\<in>A. \<forall>c\<in>A. cmp a b \<le> 0 \<and> cmp b c \<le> 0 \<longrightarrow> cmp a c \<le> 0))"

text \<open>
  \<^verbatim>\<open>Array.from(new Set(xs))\<close>: a \<^verbatim>\<open>Set\<close> keeps its elements in insertion order and
  ignores an element it already holds.
\<close>

definition set_add :: "'a list \<Rightarrow> 'a \<Rightarrow> 'a list" where
  "set_add s x = (if x \<in> set s then s else s @ [x])"

definition array_from_set :: "'a list \<Rightarrow> 'a list" where
  "array_from_set xs = foldl set_add [] xs"


section \<open>The data model (\<^verbatim>\<open>app/model/packages.ts\<close>)\<close>

text \<open>
  The type declarations are taken from the schema listing of the migration plan:
  every field of a package is a string, except \<^verbatim>\<open>tags\<close>, an array of strings. The field
  \<^verbatim>\<open>id\<close> is written \<open>id_field\<close>. \<^verbatim>\<open>last_update\<close> is a number that the code only copies.
\<close>

record Package =
  name :: string
  author :: string
  description :: string
  title :: string
  version :: string
  archive_url :: string
  archive_sha256_url :: string
  tags :: "string list"
  id_field :: string

record PackagesIndex =
  last_update :: int
  packages :: "Package list"


section \<open>Search and filtering (\<^verbatim>\<open>app/services/search.ts\<close>)\<close>

text \<open>
  Fuse.js is a library outside the repository: \<open>fuse_search packages query\<close> stands for
  \<^verbatim>\<open>new Fuse(packages, options).search(query)\<close>, a list of results that each carry an item.
\<close>

record FuseResult =
  item :: Package
  refIndex :: nat

type_synonym fuse = "Package list \<Rightarrow> string \<Rightarrow> FuseResult list"

definition textSearch :: "fuse \<Rightarrow> Package list \<Rightarrow> string \<Rightarrow> Package list" where
  "textSearch fuse_search pkgs query =
     (if query = [] \<or> trim query = [] then pkgs
      else map item (fuse_search pkgs query))"

definition filterByTags :: "Package list \<Rightarrow> string list \<Rightarrow> Package list" where
  "filterByTags pkgs tgs =
     (if length tgs = 0 then pkgs
      else let lowerTags = map toLowerCase tgs
           in filter (\<lambda>pkg. list_ex (\<lambda>pkgTag. toLowerCase pkgTag \<in> set lowerTags)
                                (tags pkg)) pkgs)"

record TagCount =
  tag :: string
  count :: nat

text \<open>
  \<^verbatim>\<open>Map<string, number>\<close> keeps its keys in insertion order: an association list, where
  \<^verbatim>\<open>set\<close> overwrites the value of a key in place or appends a new key
  (\<^const>\<open>AList.update\<close>). \<^verbatim>\<open>tagCounts.get(k) || 0\<close> is 0 for a missing key and for 0.
\<close>

definition get_or_zero :: "(string \<times> nat) list \<Rightarrow> string \<Rightarrow> nat" where
  "get_or_zero m k = (case map_of m k of None \<Rightarrow> 0 | Some c \<Rightarrow> if c = 0 then 0 else c)"

definition count_tag :: "string \<Rightarrow> (string \<times> nat) list \<Rightarrow> (string \<times> nat) list" where
  "count_tag t m = (let lowerTag = toLowerCase t
                    in AList.update lowerTag (get_or_zero m lowerTag + 1) m)"

definition tagCounts_of :: "Package list \<Rightarrow> (string \<times> nat) list" where
  "tagCounts_of pkgs = fold (\<lambda>pkg m. fold count_tag (tags pkg) m) pkgs []"

definition countTags :: "Package list \<Rightarrow> TagCount list" where
  "countTags pkgs =
     sort_by (\<lambda>a b. int (count b) - int (count a))
       (map (\<lambda>(t, c). \<lparr>tag = t, count = c\<rparr>) (tagCounts_of pkgs))"

definition applyFilters :: "fuse \<Rightarrow> Package list \<Rightarrow> string \<Rightarrow> string list \<Rightarrow> Package list" where
  "applyFilters fuse_search pkgs textQuery selectedTags =
     (let results = pkgs;
          results = (if textQuery \<noteq> [] \<and> trim textQuery \<noteq> []
                     then textSearch fuse_search results textQuery else results);
          results = (if length selectedTags > 0
                     then filterByTags results selectedTags else results)
      in results)"


section \<open>Fetching the package index (\<^verbatim>\<open>app/services/packages.ts\<close>)\<close>

text \<open>
  What the code can throw: \<^verbatim>\<open>fetch\<close> rejects when no response arrives, the code throws
  on a response that is not ok, \<^verbatim>\<open>response.json()\<close> rejects when the body is not JSON,
  and the code throws when validation fails.
\<close>

type_synonym issues = "string list"

datatype error =
    FetchFailed string
  | HttpError string nat string
  | BodyNotJson string
  | ValidationFailed issues

record Response =
  ok :: bool
  status :: nat
  statusText :: string
  body :: string

text \<open>
  \<^verbatim>\<open>PackagesIndexSchema\<close> belongs to \<^verbatim>\<open>app/model/packages.ts\<close>: \<open>safeParse json\<close> stands
  for \<^verbatim>\<open>v.safeParse(PackagesIndexSchema, json)\<close>, \<open>Inr output\<close> on success and \<open>Inl issues\<close>
  otherwise.
\<close>

type_synonym 'j schema = "'j \<Rightarrow> issues + PackagesIndex"

definition PACKAGE_INDEX_URL :: "string option \<Rightarrow> string" where
  "PACKAGE_INDEX_URL env =
     (case env of
        Some u \<Rightarrow> if u \<noteq> [] then u
                  else ''https://github.com/espanso/hub/releases/download/v1.0.0/package_index.json''
      | None \<Rightarrow> ''https://github.com/espanso/hub/releases/download/v1.0.0/package_index.json'')"

text \<open>Lines 81 to 87: the awaited \<^verbatim>\<open>fetch\<close> and the check of \<^verbatim>\<open>response.ok\<close>.\<close>

definition check_response :: "string \<Rightarrow> error + Response \<Rightarrow> error + Response" where
  "check_response url fetched =
     (case fetched of
        Inl e \<Rightarrow> Inl e
      | Inr response \<Rightarrow>
          if \<not> ok response then Inl (HttpError url (status response) (statusText response))
          else Inr response)"

text \<open>Lines 89 to 113: the awaited body, the validation and the removal of dummy packages.\<close>

definition validate :: "'j schema \<Rightarrow> error + 'j \<Rightarrow> error + PackagesIndex" where
  "validate safeParse parsed =
     (case parsed of
        Inl e \<Rightarrow> Inl e
      | Inr json \<Rightarrow>
          (case safeParse json of
             Inr output \<Rightarrow>
               (let filteredPackages =
                      filter (\<lambda>pkg. name pkg \<noteq> ''dummy-package'') (packages output)
                in Inr (output\<lparr>packages := filteredPackages\<rparr>))
           | Inl issues \<Rightarrow> Inl (ValidationFailed issues)))"

text \<open>
  The body of the asynchronous function of lines 80 to 121, as a function of what the
  network delivers: the outcome of \<^verbatim>\<open>fetch\<close> and the outcome of \<^verbatim>\<open>response.json()\<close>.
\<close>

definition fetch_body ::
  "'j schema \<Rightarrow> string \<Rightarrow> error + Response \<Rightarrow> error + 'j \<Rightarrow> error + PackagesIndex" where
  "fetch_body safeParse url fetched parsed =
     (case check_response url fetched of
        Inl e \<Rightarrow> Inl e
      | Inr response \<Rightarrow> validate safeParse parsed)"

subsection \<open>The module state and the run of one build process\<close>

text \<open>
  The two module variables, the promises the function has created (a promise is its index
  in the list) and the log of the requests sent. The asynchronous body is suspended at its
  two \<^verbatim>\<open>await\<close>s, so a promise waits for the response, then for the body, and then is
  settled for good.
\<close>

datatype promise_state =
    AwaitingFetch
  | AwaitingJson
  | Fulfilled PackagesIndex
  | Rejected error

record world =
  cachedPackagesIndex :: "PackagesIndex option"
  fetchPromise :: "nat option"
  promises :: "promise_state list"
  requests :: "string list"

definition init :: world where
  "init = \<lparr>cachedPackagesIndex = None, fetchPromise = None, promises = [], requests = []\<rparr>"

datatype returned = Value PackagesIndex | Promise nat

definition fetchPackagesIndex :: "string \<Rightarrow> world \<Rightarrow> returned \<times> world" where
  "fetchPackagesIndex url w =
     (case cachedPackagesIndex w of
        Some idx \<Rightarrow> (Value idx, w)
      | None \<Rightarrow>
          (case fetchPromise w of
             Some p \<Rightarrow> (Promise p, w)
           | None \<Rightarrow>
               (let p = length (promises w);
                    w' = w\<lparr>promises := promises w @ [AwaitingFetch],
                           requests := requests w @ [url]\<rparr>
                in (Promise p, w'\<lparr>fetchPromise := Some p\<rparr>))))"

definition fetch_settled :: "string \<Rightarrow> nat \<Rightarrow> error + Response \<Rightarrow> world \<Rightarrow> world" where
  "fetch_settled url p fetched w =
     (if p < length (promises w) \<and> promises w ! p = AwaitingFetch
      then (case check_response url fetched of
              Inl e \<Rightarrow> w\<lparr>promises := (promises w)[p := Rejected e]\<rparr>
            | Inr response \<Rightarrow> w\<lparr>promises := (promises w)[p := AwaitingJson]\<rparr>)
      else w)"

definition json_settled :: "'j schema \<Rightarrow> nat \<Rightarrow> error + 'j \<Rightarrow> world \<Rightarrow> world" where
  "json_settled safeParse p parsed w =
     (if p < length (promises w) \<and> promises w ! p = AwaitingJson
      then (case validate safeParse parsed of
              Inl e \<Rightarrow> w\<lparr>promises := (promises w)[p := Rejected e]\<rparr>
            | Inr result \<Rightarrow>
                w\<lparr>cachedPackagesIndex := Some result,
                  promises := (promises w)[p := Fulfilled result]\<rparr>)
      else w)"

datatype 'j event =
    Call
  | FetchSettled nat "error + Response"
  | JsonSettled nat "error + 'j"

fun step :: "'j schema \<Rightarrow> string \<Rightarrow> 'j event \<Rightarrow> world \<Rightarrow> world" where
  "step safeParse url Call w = snd (fetchPackagesIndex url w)"
| "step safeParse url (FetchSettled p fetched) w = fetch_settled url p fetched w"
| "step safeParse url (JsonSettled p parsed) w = json_settled safeParse p parsed w"

definition run :: "'j schema \<Rightarrow> string \<Rightarrow> 'j event list \<Rightarrow> world \<Rightarrow> world" where
  "run safeParse url es w = fold (step safeParse url) es w"

text \<open>What a caller that awaits the returned value gets once it is settled.\<close>

definition awaited :: "world \<Rightarrow> returned \<Rightarrow> (error + PackagesIndex) option" where
  "awaited w r =
     (case r of
        Value idx \<Rightarrow> Some (Inr idx)
      | Promise p \<Rightarrow>
          (if p < length (promises w)
           then (case promises w ! p of
                   Fulfilled idx \<Rightarrow> Some (Inr idx)
                 | Rejected e \<Rightarrow> Some (Inl e)
                 | _ \<Rightarrow> None)
           else None))"


subsection \<open>The accessors\<close>

text \<open>
  Every accessor awaits \<^verbatim>\<open>getPackagesIndex()\<close> first. Within one build process all calls
  of \<^verbatim>\<open>fetchPackagesIndex\<close> settle to one result, \<open>fetched\<close> below.
\<close>

definition getPackagesIndex :: "error + PackagesIndex \<Rightarrow> error + PackagesIndex" where
  "getPackagesIndex fetched = (case fetched of Inl e \<Rightarrow> Inl e | Inr index \<Rightarrow> Inr index)"

definition getUniquePackageNames :: "error + PackagesIndex \<Rightarrow> error + string list" where
  "getUniquePackageNames fetched =
     (case getPackagesIndex fetched of
        Inl e \<Rightarrow> Inl e
      | Inr index \<Rightarrow> Inr (array_from_set (map name (packages index))))"

text \<open>
  \<open>localeCompare a b\<close> stands for \<^verbatim>\<open>a.localeCompare(b, undefined, { numeric: true })\<close>, a
  comparison of the runtime's collator.
\<close>

definition getPackageByName ::
  "(string \<Rightarrow> string \<Rightarrow> int) \<Rightarrow> error + PackagesIndex \<Rightarrow> string \<Rightarrow> error + Package option" where
  "getPackageByName localeCompare fetched packageName =
     (case getPackagesIndex fetched of
        Inl e \<Rightarrow> Inl e
      | Inr index \<Rightarrow>
          (let packageVersions = filter (\<lambda>pkg. name pkg = packageName) (packages index)
           in if length packageVersions = 0 then Inr None
              else (let sorted = sort_by (\<lambda>a b. localeCompare (version b) (version a))
                                   packageVersions
                    in Inr (Some (sorted ! 0)))))"

text \<open>
  The three accessors below are those of the migration plan
  (\<^verbatim>\<open>.windsurf/plans/2025-10-23-single-package-page-migration.md\<close>), which the routes and
  the prerender configuration import.
\<close>

definition getPackageByNameAndVersion ::
  "error + PackagesIndex \<Rightarrow> string \<Rightarrow> string \<Rightarrow> error + Package option" where
  "getPackageByNameAndVersion fetched nm ver =
     (case getPackagesIndex fetched of
        Inl e \<Rightarrow> Inl e
      | Inr index \<Rightarrow> Inr (find (\<lambda>p. name p = nm \<and> version p = ver) (packages index)))"

definition getVersionsForPackage ::
  "(string \<Rightarrow> string \<Rightarrow> int) \<Rightarrow> error + PackagesIndex \<Rightarrow> string \<Rightarrow> error + string list" where
  "getVersionsForPackage localeCompare fetched nm =
     (case getPackagesIndex fetched of
        Inl e \<Rightarrow> Inl e
      | Inr index \<Rightarrow>
          (let versions = sort_by (\<lambda>a b. localeCompare b a)
                            (map version (filter (\<lambda>p. name p = nm) (packages index)))
           in Inr (array_from_set versions)))"

definition getAllPackageVersionPaths :: "error + PackagesIndex \<Rightarrow> error + string list" where
  "getAllPackageVersionPaths fetched =
     (case getPackagesIndex fetched of
        Inl e \<Rightarrow> Inl e
      | Inr index \<Rightarrow> Inr (map (\<lambda>p. ''/'' @ name p @ ''/v/'' @ version p) (packages index)))"


section \<open>Prerendered paths (\<^verbatim>\<open>react-router.config.ts\<close>)\<close>

text \<open>
  The sources hold three states of the configuration. The first
  (\<^verbatim>\<open>react-router.config.ts\<close>, lines 4 to 18) precedes the versioned routes and lists
  \<^verbatim>\<open>/\<close> and the package names only. The two below list versions as well; this one
  (\<^verbatim>\<open>unnamed/part_000\<close>) prerenders every package and every version.
\<close>

definition prerender :: "error + PackagesIndex \<Rightarrow> error + string list" where
  "prerender fetched =
     (case getUniquePackageNames fetched of
        Inl e \<Rightarrow> Inl e
      | Inr packageNames \<Rightarrow>
          (case getAllPackageVersionPaths fetched of
             Inl e \<Rightarrow> Inl e
           | Inr versionPaths \<Rightarrow>
               Inr ([''/''] @ map (\<lambda>nm. ''/'' @ nm) packageNames @ versionPaths)))"

text \<open>
  The configuration with a base name and the search page
  (\<^verbatim>\<open>react-router.config.ts\<close>, lines 25 to 45): \<^verbatim>\<open>slice(0, 3)\<close> keeps the first three.
\<close>

definition prerender_sliced :: "error + PackagesIndex \<Rightarrow> error + string list" where
  "prerender_sliced fetched =
     (case getUniquePackageNames fetched of
        Inl e \<Rightarrow> Inl e
      | Inr packageNames \<Rightarrow>
          (case getAllPackageVersionPaths fetched of
             Inl e \<Rightarrow> Inl e
           | Inr versionPaths \<Rightarrow>
               Inr ([''/'', ''/search''] @ map (\<lambda>nm. ''/'' @ nm) (take 3 packageNames)
                      @ take 3 versionPaths)))"


section \<open>The package route (\<^verbatim>\<open>app/routes/package.tsx\<close>)\<close>

text \<open>
  A loader returns its data, or throws: an error of the accessors, or a \<^verbatim>\<open>Response\<close>.
  \<^verbatim>\<open>new Response(text, { status: 404 })\<close> is not ok and has an empty status text.
\<close>

datatype 'a outcome =
    Threw_Error error
  | Threw_Response Response
  | Returned 'a

definition not_found :: "string \<Rightarrow> Response" where
  "not_found text = \<lparr>ok = False, status = 404, statusText = [], body = text\<rparr>"

record 'p PackageData =
  package :: 'p

record 'p LoaderData = "'p PackageData" +
  versions :: "string list"
  isLatest :: bool

text \<open>The first loader (\<^verbatim>\<open>unnamed/part_001\<close>): the latest version only.\<close>

definition loader_latest ::
  "(string \<Rightarrow> string \<Rightarrow> int) \<Rightarrow> error + PackagesIndex \<Rightarrow> string \<Rightarrow> Package PackageData outcome"
  where
  "loader_latest localeCompare fetched packageName =
     (case getPackageByName localeCompare fetched packageName of
        Inl e \<Rightarrow> Threw_Error e
      | Inr None \<Rightarrow> Threw_Response (not_found ''Package not found'')
      | Inr (Some p) \<Rightarrow> Returned \<lparr>package = p\<rparr>)"

text \<open>
  The loader of both routes (\<^verbatim>\<open>unnamed/part_002\<close>, lines 24 to 44). The parameter
  \<^verbatim>\<open>version\<close> is undefined on the route without a version; as a condition, undefined and
  the empty string are false.
\<close>

definition truthy :: "string option \<Rightarrow> bool" where
  "truthy v = (case v of None \<Rightarrow> False | Some s \<Rightarrow> s \<noteq> [])"

definition lookup ::
  "(string \<Rightarrow> string \<Rightarrow> int) \<Rightarrow> error + PackagesIndex \<Rightarrow> string \<Rightarrow> string option
     \<Rightarrow> error + Package option" where
  "lookup localeCompare fetched packageName version_param =
     (case version_param of
        Some v \<Rightarrow> if v \<noteq> [] then getPackageByNameAndVersion fetched packageName v
                  else getPackageByName localeCompare fetched packageName
      | None \<Rightarrow> getPackageByName localeCompare fetched packageName)"

definition is_latest :: "string option \<Rightarrow> string list \<Rightarrow> bool" where
  "is_latest version_param vs =
     (\<not> truthy version_param \<or>
      (case vs of [] \<Rightarrow> False | v0 # _ \<Rightarrow> Some v0 = version_param))"

definition loader ::
  "(string \<Rightarrow> string \<Rightarrow> int) \<Rightarrow> error + PackagesIndex \<Rightarrow> string \<Rightarrow> string option
     \<Rightarrow> Package LoaderData outcome" where
  "loader localeCompare fetched packageName version_param =
     (case lookup localeCompare fetched packageName version_param of
        Inl e \<Rightarrow> Threw_Error e
      | Inr None \<Rightarrow>
          Threw_Response (not_found (if truthy version_param then ''Package version not found''
                                     else ''Package not found''))
      | Inr (Some p) \<Rightarrow>
          (case getVersionsForPackage localeCompare fetched packageName of
             Inl e \<Rightarrow> Threw_Error e
           | Inr vs \<Rightarrow>
               Returned \<lparr>package = p, versions = vs, isLatest = is_latest version_param vs\<rparr>))"

text \<open>
  The later loader of the same route (\<^verbatim>\<open>unnamed/part_002\<close>, lines 282 to 313) also reads
  the files of the archive and returns the package extended with them.
  \<open>fetchPackageFiles\<close> is an accessor outside the sources.
\<close>

record 'f PackageWithFiles = Package +
  files :: 'f

definition loader_files ::
  "(string \<Rightarrow> string \<Rightarrow> int) \<Rightarrow> (string \<Rightarrow> error + 'f) \<Rightarrow> error + PackagesIndex \<Rightarrow> string
     \<Rightarrow> string option \<Rightarrow> 'f PackageWithFiles LoaderData outcome" where
  "loader_files localeCompare fetchPackageFiles fetched packageName version_param =
     (case lookup localeCompare fetched packageName version_param of
        Inl e \<Rightarrow> Threw_Error e
      | Inr None \<Rightarrow>
          Threw_Response (not_found (if truthy version_param then ''Package version not found''
                                     else ''Package not found''))
      | Inr (Some p) \<Rightarrow>
          (case getVersionsForPackage localeCompare fetched packageName of
             Inl e \<Rightarrow> Threw_Error e
           | Inr vs \<Rightarrow>
               (case fetchPackageFiles (archive_url p) of
                  Inl e \<Rightarrow> Threw_Error e
                | Inr fs \<Rightarrow>
                    (let packageWithFiles = Package.extend p (PackageWithFiles.fields fs)
                     in Returned \<lparr>package = packageWithFiles, versions = vs,
                                  isLatest = is_latest version_param vs\<rparr>))))"

subsection \<open>The link to the repository\<close>

text \<open>
  \<^verbatim>\<open>archiveUrl.match(/github\.com\/([^\/]+\/[^\/]+)/)\<close>. At one position the expression
  reads the literal \<^verbatim>\<open>github.com/\<close>, a longest run of one or more units other than the slash,
  a slash, and again such a run; a shorter first run is followed by a unit that is not a
  slash, so backtracking finds nothing more. The search takes the first position where
  this succeeds, and the group is the two runs with their slash.
\<close>

definition not_slash :: "char \<Rightarrow> bool" where
  "not_slash c = (c \<noteq> CHR ''/'')"

definition strip_prefix :: "string \<Rightarrow> string \<Rightarrow> string option" where
  "strip_prefix p s = (if take (length p) s = p then Some (drop (length p) s) else None)"

definition match_here :: "string \<Rightarrow> string option" where
  "match_here s =
     (case strip_prefix ''github.com/'' s of
        None \<Rightarrow> None
      | Some r1 \<Rightarrow>
          (let owner = takeWhile not_slash r1
           in if owner = [] then None
              else (case dropWhile not_slash r1 of
                      [] \<Rightarrow> None
                    | c # r2 \<Rightarrow>
                        (let repo = takeWhile not_slash r2
                         in if repo = [] then None
                            else Some (owner @ ''/'' @ repo)))))"

fun match_first :: "string \<Rightarrow> string option" where
  "match_first [] = match_here []"
| "match_first (c # s) =
     (case match_here (c # s) of Some g \<Rightarrow> Some g | None \<Rightarrow> match_first s)"

definition getGitHubUrl :: "string \<Rightarrow> string option" where
  "getGitHubUrl archiveUrl =
     (case match_first archiveUrl of
        Some g \<Rightarrow> Some (''https://github.com/'' @ g)
      | None \<Rightarrow> None)"


section \<open>Vocabulary of the statements\<close>

text \<open>The two causes of rejection that can be read off a response and a body.\<close>

definition response_not_ok :: "error + Response \<Rightarrow> bool" where
  "response_not_ok fetched = (case fetched of Inl e \<Rightarrow> False | Inr response \<Rightarrow> \<not> ok response)"

definition fails_validation :: "'j schema \<Rightarrow> error + 'j \<Rightarrow> bool" where
  "fails_validation safeParse parsed =
     (case parsed of Inl e \<Rightarrow> False | Inr json \<Rightarrow> isl (safeParse json))"

text \<open>The state of the first promise, if the function has created one.\<close>

definition first_promise :: "world \<Rightarrow> promise_state option" where
  "first_promise w = (case promises w of [] \<Rightarrow> None | s # _ \<Rightarrow> Some s)"

text \<open>
  What holds of the module state throughout a build process: either nothing was fetched
  yet, or there is one request and one promise, the variable \<^verbatim>\<open>fetchPromise\<close> holds it,
  and the cache is filled exactly when that promise is fulfilled, with its value.
\<close>

definition cache_agrees :: "promise_state \<Rightarrow> PackagesIndex option \<Rightarrow> bool" where
  "cache_agrees s c = (case s of Fulfilled idx \<Rightarrow> c = Some idx | _ \<Rightarrow> c = None)"

definition fetched_once :: "string \<Rightarrow> world \<Rightarrow> bool" where
  "fetched_once url w =
     (w = init \<or>
      (requests w = [url] \<and> fetchPromise w = Some 0 \<and>
       (case promises w of [s] \<Rightarrow> cache_agrees s (cachedPackagesIndex w) | _ \<Rightarrow> False)))"


section \<open>Example data\<close>

text \<open>
  A comparator for the examples: it reads both strings as decimal numbers separated by
  dots and compares them number by number, as a numeric collation orders version strings.
\<close>

definition number_of :: "string \<Rightarrow> nat" where
  "number_of s = foldl (\<lambda>n c. 10 * n + (of_char c - 48)) 0 s"

fun split_dots :: "string \<Rightarrow> string list" where
  "split_dots [] = [[]]"
| "split_dots (c # s) =
     (if c = CHR ''.'' then [] # split_dots s
      else (case split_dots s of [] \<Rightarrow> [[c]] | w # ws \<Rightarrow> (c # w) # ws))"

fun compare_numbers :: "nat list \<Rightarrow> nat list \<Rightarrow> int" where
  "compare_numbers [] [] = 0"
| "compare_numbers [] (y # ys) = - 1"
| "compare_numbers (x # xs) [] = 1"
| "compare_numbers (x # xs) (y # ys) =
     (if x < y then - 1 else if y < x then 1 else compare_numbers xs ys)"

definition compare_versions :: "string \<Rightarrow> string \<Rightarrow> int" where
  "compare_versions a b =
     compare_numbers (map number_of (split_dots a)) (map number_of (split_dots b))"

definition mk_pkg :: "string \<Rightarrow> string \<Rightarrow> string list \<Rightarrow> Package" where
  "mk_pkg nm ver tgs =
     \<lparr>name = nm, author = ''espanso'', description = nm, title = nm, version = ver,
      archive_url = ''https://github.com/espanso/hub/releases/download/v1.0.0/'' @ nm @ ''.zip'',
      archive_sha256_url = ''https://github.com/espanso/hub/releases/download/v1.0.0/''
                           @ nm @ ''.sha256'',
      tags = tgs, id_field = nm @ ''-'' @ ver\<rparr>"

definition pkg_a :: Package where
  "pkg_a = mk_pkg ''emoji'' ''0.9.0'' [''Emoji'', ''fun'']"

definition pkg_b :: Package where
  "pkg_b = mk_pkg ''emoji'' ''0.10.0'' [''emoji'', ''EMOJI'']"

definition pkg_c :: Package where
  "pkg_c = mk_pkg ''greek'' ''1.0.0'' [''math'']"

definition pkg_d :: Package where
  "pkg_d = mk_pkg ''dummy-package'' ''0.1.0'' [''test'']"

definition pkg_e :: Package where
  "pkg_e = mk_pkg ''dates'' ''0.1.0'' [''Fun'']"

definition pkg_f :: Package where
  "pkg_f = mk_pkg ''html'' ''2.0.0'' [''code'']"

definition index_ex :: PackagesIndex where
  "index_ex = \<lparr>last_update = 1700000000, packages = [pkg_a, pkg_d, pkg_b, pkg_c]\<rparr>"

definition index_two :: PackagesIndex where
  "index_two = \<lparr>last_update = 1700000000, packages = [pkg_a, pkg_c]\<rparr>"

definition index_five :: PackagesIndex where
  "index_five = \<lparr>last_update = 1700000000, packages = [pkg_a, pkg_b, pkg_c, pkg_e, pkg_f]\<rparr>"

text \<open>
  A schema for the examples: the parsed body is an index already, and it is valid when
  every package has a tag (the least length of \<^verbatim>\<open>tags\<close> in the schema listing).
\<close>

definition schema_ex :: "PackagesIndex schema" where
  "schema_ex json =
     (if list_all (\<lambda>p. tags p \<noteq> []) (packages json) then Inr json
      else Inl [''Tags array must not be empty''])"

definition response_ok :: Response where
  "response_ok = \<lparr>ok = True, status = 200, statusText = ''OK'', body = []\<rparr>"

definition response_missing :: Response where
  "response_missing = \<lparr>ok = False, status = 404, statusText = ''Not Found'', body = []\<rparr>"

definition index_untagged :: PackagesIndex where
  "index_untagged = \<lparr>last_update = 1700000000, packages = [mk_pkg ''bare'' ''0.1.0'' []]\<rparr>"


section \<open>Properties of the sort and of the strings\<close>


lemma set_insert_by: "set (insert_by cmp x ys) = insert x (set ys)"
  by (induction ys) auto

lemma set_sort_by: "set (sort_by cmp xs) = set xs"
  by (induction xs) (simp_all add: sort_by_def set_insert_by)

lemma length_insert_by: "length (insert_by cmp x ys) = Suc (length ys)"
  by (induction ys) auto

lemma length_sort_by: "length (sort_by cmp xs) = length xs"
  by (induction xs) (simp_all add: sort_by_def length_insert_by)

lemma distinct_map_insert_by:
  "distinct (map f (insert_by cmp x ys)) = (f x \<notin> f ` set ys \<and> distinct (map f ys))"
  by (induction ys) (auto simp: set_insert_by)

lemma distinct_map_sort_by: "distinct (map f (sort_by cmp xs)) = distinct (map f xs)"
  by (induction xs) (simp_all add: sort_by_def distinct_map_insert_by set_sort_by[unfolded sort_by_def])

lemma consistent_onD1:
  "consistent_on cmp A \<Longrightarrow> a \<in> A \<Longrightarrow> b \<in> A \<Longrightarrow> cmp a b \<le> 0 \<or> cmp b a \<le> 0"
  unfolding consistent_on_def by blast

lemma consistent_onD2:
  "consistent_on cmp A \<Longrightarrow> a \<in> A \<Longrightarrow> b \<in> A \<Longrightarrow> c \<in> A \<Longrightarrow>
   cmp a b \<le> 0 \<Longrightarrow> cmp b c \<le> 0 \<Longrightarrow> cmp a c \<le> 0"
  unfolding consistent_on_def by blast

lemma consistent_on_subset: "consistent_on cmp A \<Longrightarrow> B \<subseteq> A \<Longrightarrow> consistent_on cmp B"
  unfolding consistent_on_def by blast

lemma sorted_insert_by:
  assumes "consistent_on cmp (insert x (set ys))"
    and "sorted_wrt (\<lambda>a b. cmp a b \<le> 0) ys"
  shows "sorted_wrt (\<lambda>a b. cmp a b \<le> 0) (insert_by cmp x ys)"
  using assms
proof (induction ys)
  case Nil
  then show ?case by simp
next
  case (Cons y ys)
  have c: "consistent_on cmp (insert x (set ys))"
    by (rule consistent_on_subset[OF Cons.prems(1)]) auto
  show ?case
  proof (cases "cmp x y \<le> 0")
    case True
    have "cmp x z \<le> 0" if "z \<in> set ys" for z
    proof -
      have "cmp y z \<le> 0" using Cons.prems(2) that by simp
      then show ?thesis
        using consistent_onD2[OF Cons.prems(1), of x y z] True that by simp
    qed
    then show ?thesis using True Cons.prems(2) by simp
  next
    case False
    then have yx: "cmp y x \<le> 0"
      using consistent_onD1[OF Cons.prems(1), of x y] by simp
    have "sorted_wrt (\<lambda>a b. cmp a b \<le> 0) (insert_by cmp x ys)"
      using Cons.IH c Cons.prems(2) by simp
    then show ?thesis using False yx Cons.prems(2) by (simp add: set_insert_by)
  qed
qed

lemma sorted_sort_by:
  "consistent_on cmp (set xs) \<Longrightarrow> sorted_wrt (\<lambda>a b. cmp a b \<le> 0) (sort_by cmp xs)"
proof (induction xs)
  case Nil
  then show ?case by (simp add: sort_by_def)
next
  case (Cons x xs)
  have "consistent_on cmp (set xs)"
    by (rule consistent_on_subset[OF Cons.prems]) auto
  then have "sorted_wrt (\<lambda>a b. cmp a b \<le> 0) (sort_by cmp xs)" using Cons.IH by simp
  moreover have "consistent_on cmp (insert x (set (sort_by cmp xs)))"
    using Cons.prems by (simp add: set_sort_by)
  ultimately have "sorted_wrt (\<lambda>a b. cmp a b \<le> 0) (insert_by cmp x (sort_by cmp xs))"
    by (rule sorted_insert_by[rotated])
  then show ?case by (simp add: sort_by_def)
qed

lemma sort_by_head_least:
  assumes "consistent_on cmp (set xs)" and "xs \<noteq> []"
  shows "sort_by cmp xs ! 0 \<in> set xs \<and> (\<forall>y\<in>set xs. cmp (sort_by cmp xs ! 0) y \<le> 0)"
proof -
  obtain h t where ht: "sort_by cmp xs = h # t"
    using assms(2) length_sort_by[of cmp xs] by (cases "sort_by cmp xs") auto
  have hin: "h \<in> set xs" using ht set_sort_by[of cmp xs] by auto
  have "sorted_wrt (\<lambda>a b. cmp a b \<le> 0) (h # t)"
    using sorted_sort_by[OF assms(1)] ht by simp
  then have rest: "\<forall>y\<in>set t. cmp h y \<le> 0" by simp
  have "cmp h h \<le> 0" using consistent_onD1[OF assms(1) hin hin] by simp
  moreover have "set xs = insert h (set t)" using ht set_sort_by[of cmp xs] by auto
  ultimately show ?thesis using rest hin ht by simp
qed

lemma consistent_on_flip_image:
  "consistent_on cmp (f ` A) \<Longrightarrow> consistent_on (\<lambda>a b. cmp (f b) (f a)) A"
  unfolding consistent_on_def by (intro conjI ballI impI) (blast+)

lemma trim_empty_iff: "trim s = [] \<longleftrightarrow> (\<forall>c\<in>set s. isWhiteSpace c)"
proof
  assume "trim s = []"
  then have a: "\<forall>c\<in>set (dropWhile isWhiteSpace s). isWhiteSpace c"
    by (simp add: trim_def dropWhile_eq_Nil_conv)
  show "\<forall>c\<in>set s. isWhiteSpace c"
  proof (cases "dropWhile isWhiteSpace s")
    case Nil
    then show ?thesis by (simp add: dropWhile_eq_Nil_conv)
  next
    case (Cons x xs)
    then have "\<not> isWhiteSpace x" using hd_dropWhile[of isWhiteSpace s] by simp
    moreover have "x \<in> set (dropWhile isWhiteSpace s)" using Cons by simp
    ultimately show ?thesis using a by blast
  qed
next
  assume "\<forall>c\<in>set s. isWhiteSpace c"
  then have "dropWhile isWhiteSpace s = []" by simp
  then show "trim s = []" by (simp only: trim_def rev.simps dropWhile.simps)
qed


section \<open>Properties of search and filtering\<close>

text \<open>
  Claim C3. \<open>applyFilters\<close> is the tag filter applied to the text search. The text search
  returns its input when the query is empty or consists of white space, the tag filter
  returns its input when no tag is selected, and so \<open>applyFilters\<close> with such a query and
  no tag returns the packages unchanged.
\<close>

theorem applyFilters_composes:
  "applyFilters fuse_search pkgs q sel = filterByTags (textSearch fuse_search pkgs q) sel
   \<and> ((q = [] \<or> (\<forall>c\<in>set q. isWhiteSpace c)) \<longrightarrow> textSearch fuse_search pkgs q = pkgs)
   \<and> filterByTags pkgs [] = pkgs
   \<and> ((q = [] \<or> (\<forall>c\<in>set q. isWhiteSpace c)) \<longrightarrow> applyFilters fuse_search pkgs q [] = pkgs)"
proof -
  have ts: "textSearch fuse_search pkgs q = pkgs" if "q = [] \<or> (\<forall>c\<in>set q. isWhiteSpace c)"
    using that by (auto simp: textSearch_def trim_empty_iff)
  have ft: "filterByTags xs [] = xs" for xs
    by (simp add: filterByTags_def)
  have comp: "applyFilters fuse_search pkgs q sel = filterByTags (textSearch fuse_search pkgs q) sel"
    for sel
  proof (cases "sel = []")
    case True
    then show ?thesis by (simp add: applyFilters_def ft textSearch_def)
  next
    case False
    then show ?thesis by (simp add: applyFilters_def textSearch_def)
  qed
  show ?thesis using ts ft comp by simp
qed

theorem applyFilters_composes_witness:
  "(''  '' = [] \<or> (\<forall>c\<in>set ''  ''. isWhiteSpace c))
   \<and> textSearch (\<lambda>ps q. []) [pkg_a] ''  '' = [pkg_a]
   \<and> applyFilters (\<lambda>ps q. []) [pkg_a] ''  '' [] = [pkg_a]"
  using applyFilters_composes [of "\<lambda>ps q. []" "[pkg_a]" "''  ''" "[]"]
  by (simp add: isWhiteSpace_def)

text \<open>
  Claim C4. With at least one selected tag, \<open>filterByTags\<close> keeps exactly the packages
  that have a tag equal to a selected tag once both are in lower case; the result keeps
  the order of the input and holds only packages of the input.
\<close>

theorem filterByTags_any_tag:
  assumes "sel \<noteq> []"
  shows "filterByTags pkgs sel =
           filter (\<lambda>p. \<exists>t\<in>set (tags p). \<exists>s\<in>set sel. toLowerCase t = toLowerCase s) pkgs
         \<and> subseq (filterByTags pkgs sel) pkgs
         \<and> set (filterByTags pkgs sel) \<subseteq> set pkgs"
proof -
  have eq: "filterByTags pkgs sel =
           filter (\<lambda>p. \<exists>t\<in>set (tags p). \<exists>s\<in>set sel. toLowerCase t = toLowerCase s) pkgs"
    using assms
    by (auto simp: filterByTags_def list_ex_iff image_iff intro!: filter_cong)
  show ?thesis unfolding eq by simp
qed

theorem filterByTags_any_tag_witness:
  "[''FUN'', ''Math''] \<noteq> []
   \<and> filterByTags (packages index_ex) [''FUN'', ''Math''] = [pkg_a, pkg_c]
   \<and> subseq [pkg_a, pkg_c] (packages index_ex)"
proof -
  have h: "[''FUN'', ''Math''] \<noteq> ([] :: string list)" by simp
  have e: "filter (\<lambda>p. \<exists>t\<in>set (tags p). \<exists>s\<in>set [''FUN'', ''Math''].
                     toLowerCase t = toLowerCase s) (packages index_ex) = [pkg_a, pkg_c]"
    by code_simp
  note t = filterByTags_any_tag [OF h, of "packages index_ex"]
  have r: "filterByTags (packages index_ex) [''FUN'', ''Math''] = [pkg_a, pkg_c]"
    using t [THEN conjunct1] e by (rule trans)
  have "subseq [pkg_a, pkg_c] (packages index_ex)"
    using t [THEN conjunct2, THEN conjunct1] by (simp only: r)
  with h r show ?thesis by (simp only: simp_thms)
qed


subsection \<open>Counting tags\<close>

lemma get_or_zero_eq: "get_or_zero m k = (case map_of m k of None \<Rightarrow> 0 | Some c \<Rightarrow> c)"
  by (simp add: get_or_zero_def split: option.split)

lemma get_or_zero_count_tag:
  "get_or_zero (count_tag t m) k =
     (if k = toLowerCase t then get_or_zero m k + 1 else get_or_zero m k)"
  by (simp add: get_or_zero_eq count_tag_def update_conv' Let_def)

lemma keys_count_tag: "fst ` set (count_tag t m) = insert (toLowerCase t) (fst ` set m)"
  by (simp add: count_tag_def dom_update Let_def)

lemma distinct_count_tag: "distinct (map fst m) \<Longrightarrow> distinct (map fst (count_tag t m))"
  by (simp add: count_tag_def distinct_update Let_def)

lemma get_or_zero_fold:
  "get_or_zero (fold count_tag ts m) k =
     get_or_zero m k + length (filter (\<lambda>t. toLowerCase t = k) ts)"
  by (induction ts arbitrary: m) (auto simp: get_or_zero_count_tag)

lemma keys_fold: "fst ` set (fold count_tag ts m) = fst ` set m \<union> toLowerCase ` set ts"
  by (induction ts arbitrary: m) (auto simp: keys_count_tag)

lemma distinct_fold:
  "distinct (map fst m) \<Longrightarrow> distinct (map fst (fold count_tag ts m))"
  by (induction ts arbitrary: m) (simp_all add: distinct_count_tag)

lemma fold_tags_concat:
  "fold (\<lambda>pkg m. fold count_tag (tags pkg) m) pkgs m = fold count_tag (concat (map tags pkgs)) m"
  by (induction pkgs arbitrary: m) simp_all

lemma tagCounts_of_concat: "tagCounts_of pkgs = fold count_tag (concat (map tags pkgs)) []"
  by (simp add: tagCounts_of_def fold_tags_concat)

lemma tagCounts_of_entry:
  assumes "(t, c) \<in> set (tagCounts_of pkgs)"
  shows "c = length (filter (\<lambda>x. toLowerCase x = t) (concat (map tags pkgs)))"
proof -
  have "distinct (map fst (tagCounts_of pkgs))"
    by (simp add: tagCounts_of_concat distinct_fold)
  then have "map_of (tagCounts_of pkgs) t = Some c" using assms by simp
  then have "get_or_zero (tagCounts_of pkgs) t = c" by (simp add: get_or_zero_eq)
  moreover have "get_or_zero ([] :: (string \<times> nat) list) t = 0" by (simp add: get_or_zero_def)
  ultimately show ?thesis by (simp add: tagCounts_of_concat get_or_zero_fold)
qed

lemma consistent_on_count:
  "consistent_on (\<lambda>a b. int (count b) - int (count a)) A"
  unfolding consistent_on_def by (intro conjI ballI impI) (arith+)

lemma map_tag_entries:
  "map tag (map (\<lambda>(t, c). \<lparr>tag = t, count = c\<rparr>) m) = map fst m"
  by (induction m) auto

text \<open>
  Claim C9. \<open>countTags\<close> returns one entry for every tag in lower case that occurs in a
  package, and no other entry; the count of an entry is the number of occurrences, over
  the tag lists of all packages, of tags that are this tag in lower case (a tag listed
  twice in a package counts twice); the entries are in descending order of count.
\<close>

theorem countTags_counts:
  "distinct (map tag (countTags pkgs))
   \<and> set (map tag (countTags pkgs)) = toLowerCase ` (\<Union>p\<in>set pkgs. set (tags p))
   \<and> (\<forall>e\<in>set (countTags pkgs).
         count e = length (filter (\<lambda>t. toLowerCase t = tag e) (concat (map tags pkgs))))
   \<and> sorted_wrt (\<lambda>a b. count b \<le> count a) (countTags pkgs)"
proof -
  let ?m = "tagCounts_of pkgs"
  let ?xs = "map (\<lambda>(t, c). \<lparr>tag = t, count = c\<rparr>) ?m"
  let ?cmp = "\<lambda>a b. int (count b) - int (count a)"
  have ct: "countTags pkgs = sort_by ?cmp ?xs" by (simp add: countTags_def)
  have d: "distinct (map tag (countTags pkgs))"
    unfolding ct distinct_map_sort_by map_tag_entries
    by (simp add: tagCounts_of_concat distinct_fold)
  have "set (map tag (countTags pkgs)) = set (map tag ?xs)"
    by (simp only: ct set_map set_sort_by)
  also have "\<dots> = fst ` set ?m" unfolding map_tag_entries by simp
  also have "\<dots> = toLowerCase ` (\<Union>p\<in>set pkgs. set (tags p))"
    by (simp add: tagCounts_of_concat keys_fold)
  finally have s: "set (map tag (countTags pkgs)) = toLowerCase ` (\<Union>p\<in>set pkgs. set (tags p))" .
  have c: "count e = length (filter (\<lambda>t. toLowerCase t = tag e) (concat (map tags pkgs)))"
    if "e \<in> set (countTags pkgs)" for e
  proof -
    from that have "e \<in> set ?xs" unfolding ct by (simp add: set_sort_by)
    then obtain t n where "(t, n) \<in> set ?m" and e: "e = \<lparr>tag = t, count = n\<rparr>" by auto
    from tagCounts_of_entry[OF this(1)] e show ?thesis by simp
  qed
  have "sorted_wrt (\<lambda>a b. ?cmp a b \<le> 0) (countTags pkgs)"
    unfolding ct by (rule sorted_sort_by) (rule consistent_on_count)
  then have o: "sorted_wrt (\<lambda>a b. count b \<le> count a) (countTags pkgs)"
    by (rule sorted_wrt_mono_rel[rotated]) simp
  from d s c o show ?thesis by blast
qed

theorem countTags_counts_witness:
  "countTags (packages index_ex) =
     [\<lparr>tag = ''emoji'', count = 3\<rparr>, \<lparr>tag = ''fun'', count = 1\<rparr>,
      \<lparr>tag = ''test'', count = 1\<rparr>, \<lparr>tag = ''math'', count = 1\<rparr>]
   \<and> length (filter (\<lambda>t. toLowerCase t = ''emoji'') (concat (map tags (packages index_ex)))) = 3
   \<and> length (filter (\<lambda>t. toLowerCase t = ''emoji'') (tags pkg_b)) = 2"
proof -
  have v: "countTags (packages index_ex) =
     [\<lparr>tag = ''emoji'', count = 3\<rparr>, \<lparr>tag = ''fun'', count = 1\<rparr>,
      \<lparr>tag = ''test'', count = 1\<rparr>, \<lparr>tag = ''math'', count = 1\<rparr>]"
    by code_simp
  have b: "length (filter (\<lambda>t. toLowerCase t = ''emoji'') (tags pkg_b)) = 2" by code_simp
  have "\<lparr>tag = ''emoji'', count = 3\<rparr> \<in> set (countTags (packages index_ex))"
    unfolding v by simp
  with countTags_counts [of "packages index_ex"]
  have "count \<lparr>tag = ''emoji'', count = 3\<rparr> =
          length (filter (\<lambda>t. toLowerCase t = tag \<lparr>tag = ''emoji'', count = 3\<rparr>)
                    (concat (map tags (packages index_ex))))"
    by blast
  then have "length (filter (\<lambda>t. toLowerCase t = ''emoji'')
                       (concat (map tags (packages index_ex)))) = 3"
    by simp
  with v b show ?thesis by blast
qed


section \<open>Properties of the accessors\<close>

text \<open>
  Claim C5. \<open>getPackageByName\<close> returns null exactly when no package of the index has the
  name. Otherwise, for a comparison that orders the versions of that name consistently, it
  returns a package of the index with that name whose version is greatest: every version
  of that name compares lower than or equal to it.
\<close>

theorem getPackageByName_latest:
  "(getPackageByName localeCompare (Inr index) nm = Inr None
      \<longleftrightarrow> (\<forall>p\<in>set (packages index). name p \<noteq> nm))
   \<and> ((\<exists>p\<in>set (packages index). name p = nm)
        \<and> consistent_on localeCompare (version ` {p \<in> set (packages index). name p = nm})
      \<longrightarrow> (\<exists>p. getPackageByName localeCompare (Inr index) nm = Inr (Some p)
               \<and> p \<in> set (packages index) \<and> name p = nm
               \<and> (\<forall>q\<in>set (packages index).
                     name q = nm \<longrightarrow> localeCompare (version q) (version p) \<le> 0)))"
proof -
  let ?vs = "filter (\<lambda>pkg. name pkg = nm) (packages index)"
  let ?cmp = "\<lambda>a b. localeCompare (version b) (version a)"
  have eq: "getPackageByName localeCompare (Inr index) nm =
              (if ?vs = [] then Inr None else Inr (Some (sort_by ?cmp ?vs ! 0)))"
    by (simp add: getPackageByName_def getPackagesIndex_def Let_def)
  have none: "(?vs = []) = (\<forall>p\<in>set (packages index). name p \<noteq> nm)"
    by (auto simp: filter_empty_conv)
  have first: "getPackageByName localeCompare (Inr index) nm = Inr None
      \<longleftrightarrow> (\<forall>p\<in>set (packages index). name p \<noteq> nm)"
    unfolding eq using none by auto
  have second: "\<exists>p. getPackageByName localeCompare (Inr index) nm = Inr (Some p)
               \<and> p \<in> set (packages index) \<and> name p = nm
               \<and> (\<forall>q\<in>set (packages index).
                     name q = nm \<longrightarrow> localeCompare (version q) (version p) \<le> 0)"
    if ex: "\<exists>p\<in>set (packages index). name p = nm"
      and con: "consistent_on localeCompare (version ` {p \<in> set (packages index). name p = nm})"
  proof -
    have ne: "?vs \<noteq> []" using ex none by blast
    have "set ?vs = {p \<in> set (packages index). name p = nm}" by auto
    then have "consistent_on ?cmp (set ?vs)"
      using con consistent_on_flip_image[of localeCompare version] by simp
    from sort_by_head_least[OF this ne]
    have h: "sort_by ?cmp ?vs ! 0 \<in> set ?vs"
      and l: "\<forall>y\<in>set ?vs. ?cmp (sort_by ?cmp ?vs ! 0) y \<le> 0" by auto
    show ?thesis
      unfolding eq using ne h l by auto
  qed
  show ?thesis using first second by blast
qed

theorem getPackageByName_latest_witness:
  "(\<exists>p\<in>set (packages index_ex). name p = ''emoji'')
   \<and> consistent_on compare_versions (version ` {p \<in> set (packages index_ex). name p = ''emoji''})
   \<and> getPackageByName compare_versions (Inr index_ex) ''emoji'' = Inr (Some pkg_b)
   \<and> pkg_a \<in> set (packages index_ex) \<and> name pkg_a = ''emoji''
   \<and> compare_versions (version pkg_a) (version pkg_b) \<le> 0
   \<and> \<not> (\<exists>p\<in>set (packages index_ex). name p = ''hello'')
   \<and> getPackageByName compare_versions (Inr index_ex) ''hello'' = Inr None"
proof -
  have a: "\<exists>p\<in>set (packages index_ex). name p = ''emoji''" by code_simp
  have c: "consistent_on compare_versions
             (version ` {p \<in> set (packages index_ex). name p = ''emoji''})" by code_simp
  have g: "getPackageByName compare_versions (Inr index_ex) ''emoji'' = Inr (Some pkg_b)"
    by code_simp
  have i: "pkg_a \<in> set (packages index_ex)" and k: "name pkg_a = ''emoji''" by code_simp+
  have n: "\<forall>p\<in>set (packages index_ex). name p \<noteq> ''hello''" by code_simp
  from getPackageByName_latest [of compare_versions index_ex "''emoji''"] a c
  obtain p where p: "getPackageByName compare_versions (Inr index_ex) ''emoji'' = Inr (Some p)"
    and m: "\<forall>q\<in>set (packages index_ex).
              name q = ''emoji'' \<longrightarrow> compare_versions (version q) (version p) \<le> 0"
    by blast
  from p g have "p = pkg_b" by simp
  with m i k have m': "compare_versions (version pkg_a) (version pkg_b) \<le> 0"
    by blast
  from getPackageByName_latest [of compare_versions index_ex "''hello''"] n
  have "getPackageByName compare_versions (Inr index_ex) ''hello'' = Inr None" by blast
  with a c g m' n i k show ?thesis by blast
qed


section \<open>Properties of the fetched index\<close>

lemma set_foldl_set_add: "set (foldl set_add acc xs) = set acc \<union> set xs"
  by (induction xs arbitrary: acc) (auto simp: set_add_def)

lemma distinct_foldl_set_add: "distinct acc \<Longrightarrow> distinct (foldl set_add acc xs)"
  by (induction xs arbitrary: acc) (auto simp: set_add_def)

lemma set_array_from_set: "set (array_from_set xs) = set xs"
  by (simp add: array_from_set_def set_foldl_set_add)

lemma distinct_array_from_set: "distinct (array_from_set xs)"
  by (simp add: array_from_set_def distinct_foldl_set_add)

lemma getPackagesIndex_id: "getPackagesIndex fetched = fetched"
  by (cases fetched) (simp_all add: getPackagesIndex_def)

lemma validate_Inr:
  "validate safeParse parsed = Inr index \<longleftrightarrow>
     (\<exists>json output. parsed = Inr json \<and> safeParse json = Inr output \<and>
        index = output\<lparr>packages := filter (\<lambda>pkg. name pkg \<noteq> ''dummy-package'') (packages output)\<rparr>)"
  by (auto simp: validate_def split: sum.splits)

lemma fetch_body_Inr:
  "fetch_body safeParse url fetched parsed = Inr index \<longleftrightarrow>
     (\<exists>response. fetched = Inr response \<and> ok response) \<and> validate safeParse parsed = Inr index"
  by (auto simp: fetch_body_def check_response_def split: sum.splits)

lemma getPackageByName_member:
  assumes "getPackageByName localeCompare (Inr index) nm = Inr (Some p)"
  shows "p \<in> set (packages index) \<and> name p = nm"
proof -
  let ?vs = "filter (\<lambda>pkg. name pkg = nm) (packages index)"
  let ?s = "sort_by (\<lambda>a b. localeCompare (version b) (version a)) ?vs"
  from assms have ne: "?vs \<noteq> []" and p: "p = ?s ! 0"
    by (auto simp: getPackageByName_def getPackagesIndex_def Let_def split: if_splits)
  have "length ?s = length ?vs" by (rule length_sort_by)
  with ne have "?s ! 0 \<in> set ?s" by (simp add: nth_mem)
  then have "p \<in> set ?vs" using p by (simp add: set_sort_by)
  then show ?thesis by simp
qed

text \<open>
  Claim C8. No package of the index that \<open>getPackagesIndex\<close> returns is named
  \<^verbatim>\<open>dummy-package\<close>, and so neither is a package returned by \<open>getPackageByName\<close> nor a
  name returned by \<open>getUniquePackageNames\<close>. The packages are those of the validated
  index without the entries of that name, in the same order, and \<^verbatim>\<open>last_update\<close> is that
  of the validated index.
\<close>

theorem dummy_packages_removed:
  "getPackagesIndex (fetch_body safeParse url fetched parsed) = Inr index \<longrightarrow>
     (\<forall>p\<in>set (packages index). name p \<noteq> ''dummy-package'')
     \<and> (\<exists>json output. parsed = Inr json \<and> safeParse json = Inr output
           \<and> packages index = filter (\<lambda>pkg. name pkg \<noteq> ''dummy-package'') (packages output)
           \<and> last_update index = last_update output)
     \<and> (\<forall>nm p. getPackageByName localeCompare (Inr index) nm = Inr (Some p)
                  \<longrightarrow> name p \<noteq> ''dummy-package'')
     \<and> (\<forall>names. getUniquePackageNames (Inr index) = Inr names
                  \<longrightarrow> ''dummy-package'' \<notin> set names)"
proof
  assume "getPackagesIndex (fetch_body safeParse url fetched parsed) = Inr index"
  then have "validate safeParse parsed = Inr index"
    by (simp add: getPackagesIndex_id fetch_body_Inr)
  then obtain json out where j: "parsed = Inr json" and o: "safeParse json = Inr out"
    and i: "index = out\<lparr>packages := filter (\<lambda>pkg. name pkg \<noteq> ''dummy-package'') (packages out)\<rparr>"
    unfolding validate_Inr by blast
  have a: "\<forall>p\<in>set (packages index). name p \<noteq> ''dummy-package''" using i by simp
  have b: "\<exists>json output. parsed = Inr json \<and> safeParse json = Inr output
           \<and> packages index = filter (\<lambda>pkg. name pkg \<noteq> ''dummy-package'') (packages output)
           \<and> last_update index = last_update output"
    using j o i by simp
  have c: "name p \<noteq> ''dummy-package''"
    if "getPackageByName localeCompare (Inr index) nm = Inr (Some p)" for nm p
    using getPackageByName_member[OF that] a by blast
  have d: "''dummy-package'' \<notin> set names"
    if "getUniquePackageNames (Inr index) = Inr names" for names
  proof -
    from that have "names = array_from_set (map name (packages index))"
      by (simp add: getUniquePackageNames_def getPackagesIndex_def)
    then show ?thesis using a by (auto simp: set_array_from_set)
  qed
  from a b c d
  show "(\<forall>p\<in>set (packages index). name p \<noteq> ''dummy-package'')
     \<and> (\<exists>json output. parsed = Inr json \<and> safeParse json = Inr output
           \<and> packages index = filter (\<lambda>pkg. name pkg \<noteq> ''dummy-package'') (packages output)
           \<and> last_update index = last_update output)
     \<and> (\<forall>nm p. getPackageByName localeCompare (Inr index) nm = Inr (Some p)
                  \<longrightarrow> name p \<noteq> ''dummy-package'')
     \<and> (\<forall>names. getUniquePackageNames (Inr index) = Inr names
                  \<longrightarrow> ''dummy-package'' \<notin> set names)"
    by blast
qed

theorem dummy_packages_removed_witness:
  "getPackagesIndex (fetch_body schema_ex (PACKAGE_INDEX_URL None) (Inr response_ok) (Inr index_ex))
     = Inr \<lparr>last_update = 1700000000, packages = [pkg_a, pkg_b, pkg_c]\<rparr>
   \<and> pkg_d \<in> set (packages index_ex) \<and> name pkg_d = ''dummy-package''
   \<and> name pkg_a \<noteq> ''dummy-package'' \<and> name pkg_b \<noteq> ''dummy-package''
   \<and> name pkg_c \<noteq> ''dummy-package''"
proof -
  let ?r = "\<lparr>last_update = 1700000000, packages = [pkg_a, pkg_b, pkg_c]\<rparr>"
  have v: "getPackagesIndex
             (fetch_body schema_ex (PACKAGE_INDEX_URL None) (Inr response_ok) (Inr index_ex))
           = Inr ?r"
    by code_simp
  have d: "pkg_d \<in> set (packages index_ex)" "name pkg_d = ''dummy-package''" by code_simp+
  from dummy_packages_removed [of schema_ex "PACKAGE_INDEX_URL None" "Inr response_ok"
      "Inr index_ex" ?r] v
  have "\<forall>p\<in>set (packages ?r). name p \<noteq> ''dummy-package''" by blast
  then have "name pkg_a \<noteq> ''dummy-package'' \<and> name pkg_b \<noteq> ''dummy-package''
   \<and> name pkg_c \<noteq> ''dummy-package''" by simp
  with v d show ?thesis by blast
qed


section \<open>When the fetch rejects\<close>

lemma fetch_body_isl:
  "isl (fetch_body safeParse url fetched parsed) \<longleftrightarrow>
     isl fetched \<or> response_not_ok fetched \<or> isl parsed \<or> fails_validation safeParse parsed"
  by (cases fetched; cases parsed)
     (auto simp: fetch_body_def check_response_def validate_def response_not_ok_def
        fails_validation_def Let_def split: sum.splits)

lemma run_one_fetch:
  "awaited (run safeParse url [Call, FetchSettled 0 fetched, JsonSettled 0 parsed] init) (Promise 0)
     = Some (fetch_body safeParse url fetched parsed)"
  by (cases fetched; cases parsed)
     (auto simp: run_def init_def fetchPackagesIndex_def fetch_settled_def json_settled_def
        awaited_def fetch_body_def check_response_def Let_def split: sum.splits)

text \<open>
  Claim C2, as stated: \<open>fetchPackagesIndex\<close> rejects exactly when the response is not ok or
  the body fails validation. It fails where no response arrives, and where the body of an
  ok response is not JSON: the function rejects, there is no response that is not ok, and
  no parsed body fails validation.
\<close>

theorem fetch_rejects_unreachable:
  "isl (getPackagesIndex (fetch_body schema_ex (PACKAGE_INDEX_URL None)
          (Inl (FetchFailed ''fetch failed'')) (Inr index_ex)))
   \<and> \<not> response_not_ok (Inl (FetchFailed ''fetch failed''))
   \<and> \<not> fails_validation schema_ex (Inr index_ex)
   \<and> isl (getPackagesIndex (fetch_body schema_ex (PACKAGE_INDEX_URL None)
          (Inr response_ok) (Inl (BodyNotJson ''Unexpected token''))))
   \<and> \<not> response_not_ok (Inr response_ok)
   \<and> \<not> fails_validation schema_ex (Inl (BodyNotJson ''Unexpected token''))"
  by code_simp

text \<open>
  Claim C2, amended. \<open>fetchPackagesIndex\<close> rejects exactly when \<^verbatim>\<open>fetch\<close> rejects, or the
  response is not ok, or reading the body as JSON rejects, or the body fails validation;
  \<open>getPackagesIndex\<close> passes the result and the error on unchanged. In every other case the
  result is the validated index without its dummy packages. The result is what the promise
  of the first call settles to.
\<close>

theorem fetch_rejects_iff:
  "(isl (fetch_body safeParse url fetched parsed) \<longleftrightarrow>
      isl fetched \<or> response_not_ok fetched \<or> isl parsed \<or> fails_validation safeParse parsed)
   \<and> getPackagesIndex (fetch_body safeParse url fetched parsed)
       = fetch_body safeParse url fetched parsed
   \<and> (\<not> isl (fetch_body safeParse url fetched parsed) \<longrightarrow>
        (\<exists>json validated. parsed = Inr json \<and> safeParse json = Inr validated
           \<and> fetch_body safeParse url fetched parsed
               = Inr (validated\<lparr>packages := filter (\<lambda>pkg. name pkg \<noteq> ''dummy-package'')
                                                (packages validated)\<rparr>)))
   \<and> awaited (run safeParse url [Call, FetchSettled 0 fetched, JsonSettled 0 parsed] init)
        (Promise 0) = Some (fetch_body safeParse url fetched parsed)"
proof -
  have c: "\<exists>json validated. parsed = Inr json \<and> safeParse json = Inr validated
           \<and> fetch_body safeParse url fetched parsed
               = Inr (validated\<lparr>packages := filter (\<lambda>pkg. name pkg \<noteq> ''dummy-package'')
                                                (packages validated)\<rparr>)"
    if "\<not> isl (fetch_body safeParse url fetched parsed)"
  proof -
    from that obtain index where i: "fetch_body safeParse url fetched parsed = Inr index"
      by (cases "fetch_body safeParse url fetched parsed") auto
    then have "validate safeParse parsed = Inr index" by (simp add: fetch_body_Inr)
    then show ?thesis unfolding i validate_Inr by blast
  qed
  show ?thesis
    using fetch_body_isl[of safeParse url fetched parsed] c
      getPackagesIndex_id[of "fetch_body safeParse url fetched parsed"]
      run_one_fetch[of safeParse url fetched parsed]
    by blast
qed

theorem fetch_rejects_iff_witness:
  "fetch_body schema_ex (PACKAGE_INDEX_URL None) (Inr response_ok) (Inr index_ex)
     = Inr \<lparr>last_update = 1700000000, packages = [pkg_a, pkg_b, pkg_c]\<rparr>
   \<and> \<not> isl (fetch_body schema_ex (PACKAGE_INDEX_URL None) (Inr response_ok) (Inr index_ex))
   \<and> schema_ex index_ex = Inr index_ex
   \<and> response_not_ok (Inr response_missing)
   \<and> isl (fetch_body schema_ex (PACKAGE_INDEX_URL None) (Inr response_missing) (Inr index_ex))
   \<and> fails_validation schema_ex (Inr index_untagged)
   \<and> isl (fetch_body schema_ex (PACKAGE_INDEX_URL None) (Inr response_ok) (Inr index_untagged))"
proof -
  let ?u = "PACKAGE_INDEX_URL None"
  have n: "\<not> isl (fetch_body schema_ex ?u (Inr response_ok) (Inr index_ex))" by code_simp
  have s: "schema_ex index_ex = Inr index_ex" by code_simp
  have f: "index_ex\<lparr>packages := filter (\<lambda>pkg. name pkg \<noteq> ''dummy-package'') (packages index_ex)\<rparr>
             = \<lparr>last_update = 1700000000, packages = [pkg_a, pkg_b, pkg_c]\<rparr>" by code_simp
  from fetch_rejects_iff [of schema_ex ?u "Inr response_ok" "Inr index_ex"] n
  obtain json validated where "Inr index_ex = (Inr json :: error + PackagesIndex)"
    and "schema_ex json = Inr validated"
    and e: "fetch_body schema_ex ?u (Inr response_ok) (Inr index_ex)
       = Inr (validated\<lparr>packages := filter (\<lambda>pkg. name pkg \<noteq> ''dummy-package'')
                                                (packages validated)\<rparr>)"
    by blast
  then have "validated = index_ex" using s by simp
  with e f have v: "fetch_body schema_ex ?u (Inr response_ok) (Inr index_ex)
     = Inr \<lparr>last_update = 1700000000, packages = [pkg_a, pkg_b, pkg_c]\<rparr>" by simp
  have m: "response_not_ok (Inr response_missing)" by code_simp
  with fetch_rejects_iff [of schema_ex ?u "Inr response_missing" "Inr index_ex"]
  have r1: "isl (fetch_body schema_ex ?u (Inr response_missing) (Inr index_ex))" by blast
  have t: "fails_validation schema_ex (Inr index_untagged)" by code_simp
  with fetch_rejects_iff [of schema_ex ?u "Inr response_ok" "Inr index_untagged"]
  have r2: "isl (fetch_body schema_ex ?u (Inr response_ok) (Inr index_untagged))" by blast
  from v n s m r1 t r2 show ?thesis by blast
qed


section \<open>Properties of the prerendered paths\<close>

text \<open>
  Claim C7, as stated: the prerender function returns a path for every package name and
  for every version. The configuration with \<^verbatim>\<open>slice(0, 3)\<close> fails it on an index of five
  packages: the fifth name and the fifth version have no path.
\<close>

theorem prerender_sliced_misses_packages:
  "prerender_sliced (Inr index_five) =
     Inr [''/'', ''/search'', ''/emoji'', ''/greek'', ''/dates'',
          ''/emoji/v/0.9.0'', ''/emoji/v/0.10.0'', ''/greek/v/1.0.0'']
   \<and> pkg_f \<in> set (packages index_five)
   \<and> ''/'' @ name pkg_f \<notin> set [''/'', ''/search'', ''/emoji'', ''/greek'', ''/dates'',
          ''/emoji/v/0.9.0'', ''/emoji/v/0.10.0'', ''/greek/v/1.0.0'']
   \<and> ''/'' @ name pkg_f @ ''/v/'' @ version pkg_f
         \<notin> set [''/'', ''/search'', ''/emoji'', ''/greek'', ''/dates'',
          ''/emoji/v/0.9.0'', ''/emoji/v/0.10.0'', ''/greek/v/1.0.0'']"
  by code_simp

text \<open>
  Claim C7, amended. The configuration of \<^verbatim>\<open>unnamed/part_000\<close> returns \<^verbatim>\<open>/\<close>, then
  \<^verbatim>\<open>/<name>\<close> for each distinct name in order of first occurrence, then
  \<^verbatim>\<open>/<name>/v/<version>\<close> for each entry of the index, so every name and every entry has
  its path. The configuration of \<^verbatim>\<open>react-router.config.ts\<close> (lines 25 to 45) returns
  \<^verbatim>\<open>/\<close>, \<^verbatim>\<open>/search\<close>, the paths of the first three distinct names and the paths of the
  first three entries, at most eight paths in all. On an index of at most three entries
  these are the paths of every name and of every entry; on a larger index nothing of the
  kind is promised.
\<close>

theorem prerender_paths:
  "prerender (Inr index) =
     Inr ([''/''] @ map (\<lambda>nm. ''/'' @ nm) (array_from_set (map name (packages index)))
          @ map (\<lambda>p. ''/'' @ name p @ ''/v/'' @ version p) (packages index))
   \<and> distinct (array_from_set (map name (packages index)))
   \<and> set (array_from_set (map name (packages index))) = name ` set (packages index)
   \<and> (\<exists>paths. prerender (Inr index) = Inr paths \<and> ''/'' \<in> set paths
         \<and> (\<forall>p\<in>set (packages index).
               ''/'' @ name p \<in> set paths \<and> ''/'' @ name p @ ''/v/'' @ version p \<in> set paths))
   \<and> prerender_sliced (Inr index) =
       Inr ([''/'', ''/search'']
            @ map (\<lambda>nm. ''/'' @ nm) (take 3 (array_from_set (map name (packages index))))
            @ take 3 (map (\<lambda>p. ''/'' @ name p @ ''/v/'' @ version p) (packages index)))
   \<and> (length (packages index) \<le> 3 \<longrightarrow>
        (\<exists>paths. prerender_sliced (Inr index) = Inr paths \<and> ''/'' \<in> set paths
           \<and> (\<forall>p\<in>set (packages index).
                 ''/'' @ name p \<in> set paths \<and> ''/'' @ name p @ ''/v/'' @ version p \<in> set paths)))
   \<and> (\<exists>paths. prerender_sliced (Inr index) = Inr paths \<and> length paths \<le> 8)"
proof -
  let ?names = "array_from_set (map name (packages index))"
  let ?vp = "map (\<lambda>p. ''/'' @ name p @ ''/v/'' @ version p) (packages index)"
  have a: "prerender (Inr index) = Inr ([''/''] @ map (\<lambda>nm. ''/'' @ nm) ?names @ ?vp)"
    by (simp add: prerender_def getUniquePackageNames_def getAllPackageVersionPaths_def
        getPackagesIndex_def)
  have b: "prerender_sliced (Inr index) =
       Inr ([''/'', ''/search''] @ map (\<lambda>nm. ''/'' @ nm) (take 3 ?names) @ take 3 ?vp)"
    by (simp add: prerender_sliced_def getUniquePackageNames_def getAllPackageVersionPaths_def
        getPackagesIndex_def)
  have s: "set ?names = name ` set (packages index)" by (simp add: set_array_from_set)
  have m: "''/'' @ name p \<in> set ([''/''] @ map (\<lambda>nm. ''/'' @ nm) ?names @ ?vp)
         \<and> ''/'' @ name p @ ''/v/'' @ version p \<in> set ([''/''] @ map (\<lambda>nm. ''/'' @ nm) ?names @ ?vp)"
    if "p \<in> set (packages index)" for p
  proof -
    from that have "name p \<in> set ?names" using s by blast
    then have "''/'' @ name p \<in> (\<lambda>nm. ''/'' @ nm) ` set ?names" by blast
    moreover from that have "''/'' @ name p @ ''/v/'' @ version p \<in> set ?vp" by auto
    ultimately show ?thesis by simp
  qed
  have r: "''/'' \<in> set ([''/''] @ map (\<lambda>nm. ''/'' @ nm) ?names @ ?vp)" by simp
  have c: "\<exists>paths. prerender (Inr index) = Inr paths \<and> ''/'' \<in> set paths
         \<and> (\<forall>p\<in>set (packages index).
               ''/'' @ name p \<in> set paths \<and> ''/'' @ name p @ ''/v/'' @ version p \<in> set paths)"
    using a r m by blast
  have d: "\<exists>paths. prerender_sliced (Inr index) = Inr paths \<and> ''/'' \<in> set paths
           \<and> (\<forall>p\<in>set (packages index).
                 ''/'' @ name p \<in> set paths \<and> ''/'' @ name p @ ''/v/'' @ version p \<in> set paths)"
    if le: "length (packages index) \<le> 3"
  proof -
    have "length ?names \<le> length (map name (packages index))"
      using distinct_card[OF distinct_array_from_set, of "map name (packages index)"]
        card_length[of "map name (packages index)"] by (simp add: set_array_from_set)
    then have t1: "take 3 ?names = ?names" using le by simp
    have t2: "take 3 ?vp = ?vp" using le by simp
    from b t1 t2 have "prerender_sliced (Inr index) =
       Inr ([''/'', ''/search''] @ map (\<lambda>nm. ''/'' @ nm) ?names @ ?vp)" by (simp only:)
    moreover have "''/'' \<in> set ([''/'', ''/search''] @ map (\<lambda>nm. ''/'' @ nm) ?names @ ?vp)"
      by simp
    moreover have "set ([''/''] @ map (\<lambda>nm. ''/'' @ nm) ?names @ ?vp)
                   \<subseteq> set ([''/'', ''/search''] @ map (\<lambda>nm. ''/'' @ nm) ?names @ ?vp)"
      by auto
    ultimately show ?thesis using m by blast
  qed
  have "length ([''/'', ''/search''] @ map (\<lambda>nm. ''/'' @ nm) (take 3 ?names) @ take 3 ?vp) \<le> 8"
    by simp
  with b have e: "\<exists>paths. prerender_sliced (Inr index) = Inr paths \<and> length paths \<le> 8"
    by blast
  from a b s c d e distinct_array_from_set[of "map name (packages index)"]
  show ?thesis by blast
qed

theorem prerender_paths_witness:
  "prerender (Inr index_five) =
     Inr [''/'', ''/emoji'', ''/greek'', ''/dates'', ''/html'',
          ''/emoji/v/0.9.0'', ''/emoji/v/0.10.0'', ''/greek/v/1.0.0'',
          ''/dates/v/0.1.0'', ''/html/v/2.0.0'']
   \<and> length (packages index_two) \<le> 3
   \<and> pkg_c \<in> set (packages index_two)
   \<and> prerender_sliced (Inr index_two) =
       Inr [''/'', ''/search'', ''/emoji'', ''/greek'', ''/emoji/v/0.9.0'', ''/greek/v/1.0.0'']
   \<and> ''/'' @ name pkg_c \<in> set [''/'', ''/search'', ''/emoji'', ''/greek'',
                                   ''/emoji/v/0.9.0'', ''/greek/v/1.0.0'']"
proof -
  have e: "[''/''] @ map (\<lambda>nm. ''/'' @ nm) (array_from_set (map name (packages index_five)))
             @ map (\<lambda>p. ''/'' @ name p @ ''/v/'' @ version p) (packages index_five)
           = [''/'', ''/emoji'', ''/greek'', ''/dates'', ''/html'',
              ''/emoji/v/0.9.0'', ''/emoji/v/0.10.0'', ''/greek/v/1.0.0'',
              ''/dates/v/0.1.0'', ''/html/v/2.0.0'']"
    by code_simp
  have a: "prerender (Inr index_five) =
     Inr [''/'', ''/emoji'', ''/greek'', ''/dates'', ''/html'',
          ''/emoji/v/0.9.0'', ''/emoji/v/0.10.0'', ''/greek/v/1.0.0'',
          ''/dates/v/0.1.0'', ''/html/v/2.0.0'']"
    using prerender_paths [of index_five, THEN conjunct1] by (simp only: e)
  have l: "length (packages index_two) \<le> 3" by code_simp
  have c: "pkg_c \<in> set (packages index_two)" by code_simp
  have v: "prerender_sliced (Inr index_two) =
       Inr [''/'', ''/search'', ''/emoji'', ''/greek'', ''/emoji/v/0.9.0'', ''/greek/v/1.0.0'']"
    by code_simp
  from prerender_paths [of index_two] l c
  obtain paths where "prerender_sliced (Inr index_two) = Inr paths"
    and "''/'' @ name pkg_c \<in> set paths" by blast
  with v have "''/'' @ name pkg_c \<in> set [''/'', ''/search'', ''/emoji'', ''/greek'',
                                   ''/emoji/v/0.9.0'', ''/greek/v/1.0.0'']" by simp
  with a l c v show ?thesis by blast
qed


section \<open>Properties of the package route\<close>

lemma lookup_cases:
  "lookup localeCompare fetched nm v =
     (if truthy v then getPackageByNameAndVersion fetched nm (the v)
      else getPackageByName localeCompare fetched nm)"
  by (simp add: lookup_def truthy_def split: option.split)

lemma lookup_Inr_fetched:
  "lookup localeCompare fetched nm v = Inr r \<Longrightarrow> \<exists>index. fetched = Inr index"
  by (cases fetched)
     (auto simp: lookup_def getPackageByName_def getPackageByNameAndVersion_def
        getPackagesIndex_def split: option.splits if_splits)

lemma getVersionsForPackage_Inr:
  "\<exists>vs. getVersionsForPackage localeCompare (Inr index) nm = Inr vs"
  by (simp add: getVersionsForPackage_def getPackagesIndex_def)

text \<open>
  Claim C10. Each loader throws a \<^verbatim>\<open>Response\<close> exactly when its lookup returns null, and
  a response it throws has status 404; the lookup is \<open>getPackageByName\<close> on the route of
  the latest version, and \<open>getPackageByNameAndVersion\<close> when the version parameter is
  given. When the lookup returns a package, the loader returns data whose package is that
  package.
\<close>

theorem loader_not_found:
  "((\<exists>r. loader_latest localeCompare fetched nm = Threw_Response r)
      \<longleftrightarrow> getPackageByName localeCompare fetched nm = Inr None)
   \<and> (\<forall>r. loader_latest localeCompare fetched nm = Threw_Response r \<longrightarrow> status r = 404)
   \<and> (\<forall>p. getPackageByName localeCompare fetched nm = Inr (Some p)
          \<longrightarrow> loader_latest localeCompare fetched nm = Returned \<lparr>package = p\<rparr>)
   \<and> ((\<exists>r. loader localeCompare fetched nm v = Threw_Response r)
      \<longleftrightarrow> lookup localeCompare fetched nm v = Inr None)
   \<and> (\<forall>r. loader localeCompare fetched nm v = Threw_Response r \<longrightarrow> status r = 404)
   \<and> (\<forall>p. lookup localeCompare fetched nm v = Inr (Some p)
          \<longrightarrow> (\<exists>d. loader localeCompare fetched nm v = Returned d \<and> package d = p))
   \<and> lookup localeCompare fetched nm v =
       (if truthy v then getPackageByNameAndVersion fetched nm (the v)
        else getPackageByName localeCompare fetched nm)"
proof -
  have a: "(\<exists>r. loader_latest localeCompare fetched nm = Threw_Response r)
      \<longleftrightarrow> getPackageByName localeCompare fetched nm = Inr None"
    by (auto simp: loader_latest_def split: sum.splits option.splits)
  have b: "status r = 404" if "loader_latest localeCompare fetched nm = Threw_Response r" for r
    using that by (auto simp: loader_latest_def not_found_def split: sum.splits option.splits)
  have c: "loader_latest localeCompare fetched nm = Returned \<lparr>package = p\<rparr>"
    if "getPackageByName localeCompare fetched nm = Inr (Some p)" for p
    using that by (simp add: loader_latest_def)
  have d: "(\<exists>r. loader localeCompare fetched nm v = Threw_Response r)
      \<longleftrightarrow> lookup localeCompare fetched nm v = Inr None"
    by (auto simp: loader_def split: sum.splits option.splits)
  have e: "status r = 404" if "loader localeCompare fetched nm v = Threw_Response r" for r
    using that by (auto simp: loader_def not_found_def split: sum.splits option.splits)
  have f: "\<exists>d. loader localeCompare fetched nm v = Returned d \<and> package d = p"
    if l: "lookup localeCompare fetched nm v = Inr (Some p)" for p
  proof -
    from lookup_Inr_fetched[OF l] obtain index where i: "fetched = Inr index" by blast
    obtain vs where "getVersionsForPackage localeCompare fetched nm = Inr vs"
      using getVersionsForPackage_Inr[of localeCompare index nm] i by blast
    then show ?thesis using l by (simp add: loader_def)
  qed
  from a b c d e f lookup_cases[of localeCompare fetched nm v] show ?thesis by blast
qed

theorem loader_not_found_witness:
  "lookup compare_versions (Inr index_ex) ''emoji'' (Some ''0.9.1'') = Inr None
   \<and> (\<exists>r. loader compare_versions (Inr index_ex) ''emoji'' (Some ''0.9.1'') = Threw_Response r
            \<and> status r = 404)
   \<and> lookup compare_versions (Inr index_ex) ''emoji'' (Some ''0.9.0'') = Inr (Some pkg_a)
   \<and> (\<exists>d. loader compare_versions (Inr index_ex) ''emoji'' (Some ''0.9.0'') = Returned d
            \<and> package d = pkg_a)
   \<and> getPackageByName compare_versions (Inr index_ex) ''emoji'' = Inr (Some pkg_b)
   \<and> loader_latest compare_versions (Inr index_ex) ''emoji'' = Returned \<lparr>package = pkg_b\<rparr>
   \<and> getPackageByName compare_versions (Inr index_ex) ''hello'' = Inr None
   \<and> (\<exists>r. loader_latest compare_versions (Inr index_ex) ''hello'' = Threw_Response r
            \<and> status r = 404)"
proof -
  let ?f = "Inr index_ex :: error + PackagesIndex"
  have l0: "lookup compare_versions ?f ''emoji'' (Some ''0.9.1'') = Inr None" by code_simp
  have l1: "lookup compare_versions ?f ''emoji'' (Some ''0.9.0'') = Inr (Some pkg_a)"
    by code_simp
  have g1: "getPackageByName compare_versions ?f ''emoji'' = Inr (Some pkg_b)" by code_simp
  have g0: "getPackageByName compare_versions ?f ''hello'' = Inr None" by code_simp
  note t0 = loader_not_found [of compare_versions ?f "''emoji''" "Some ''0.9.1''"]
  note t1 = loader_not_found [of compare_versions ?f "''emoji''" "Some ''0.9.0''"]
  note t2 = loader_not_found [of compare_versions ?f "''hello''" None]
  from t0 l0 have a: "\<exists>r. loader compare_versions ?f ''emoji'' (Some ''0.9.1'') = Threw_Response r
            \<and> status r = 404" by blast
  from t1 l1 have b: "\<exists>d. loader compare_versions ?f ''emoji'' (Some ''0.9.0'') = Returned d
            \<and> package d = pkg_a" by blast
  from t1 g1 have c: "loader_latest compare_versions ?f ''emoji'' = Returned \<lparr>package = pkg_b\<rparr>"
    by blast
  from t2 g0 have d: "\<exists>r. loader_latest compare_versions ?f ''hello'' = Threw_Response r
            \<and> status r = 404" by blast
  from l0 a l1 b g1 c g0 d show ?thesis by blast
qed

text \<open>
  The later loader, which also reads the files of the archive: it throws 404 in the same
  case, and the package it returns is the looked-up package extended by the files.
\<close>

lemma loader_files_not_found:
  "((\<exists>r. loader_files localeCompare fetchPackageFiles fetched nm v = Threw_Response r)
      \<longleftrightarrow> lookup localeCompare fetched nm v = Inr None)
   \<and> (\<forall>r. loader_files localeCompare fetchPackageFiles fetched nm v = Threw_Response r
          \<longrightarrow> status r = 404)
   \<and> (\<forall>d. loader_files localeCompare fetchPackageFiles fetched nm v = Returned d
          \<longrightarrow> lookup localeCompare fetched nm v = Inr (Some (Package.truncate (package d)))
              \<and> fetchPackageFiles (archive_url (package d)) = Inr (files (package d)))"
  by (auto simp: loader_files_def not_found_def Let_def Package.truncate_def Package.extend_def
        PackageWithFiles.fields_def split: sum.splits option.splits)


section \<open>Properties of the link to the repository\<close>

lemma strip_prefix_append: "strip_prefix p (p @ s) = Some s"
  by (simp add: strip_prefix_def)

lemma strip_prefix_Some: "strip_prefix p s = Some r \<Longrightarrow> s = p @ r"
  by (auto simp: strip_prefix_def split: if_splits) (metis append_take_drop_id)

lemma not_slash_all: "(\<forall>c\<in>set xs. not_slash c) = (CHR ''/'' \<notin> set xs)"
  by (auto simp: not_slash_def)

lemma takeWhile_component:
  "CHR ''/'' \<notin> set xs \<Longrightarrow> takeWhile not_slash (xs @ CHR ''/'' # ys) = xs"
  by (induction xs) (auto simp: not_slash_def)

lemma dropWhile_component:
  "CHR ''/'' \<notin> set xs \<Longrightarrow> dropWhile not_slash (xs @ CHR ''/'' # ys) = CHR ''/'' # ys"
  by (induction xs) (auto simp: not_slash_def)

lemma takeWhile_prefix_component:
  "CHR ''/'' \<notin> set xs \<Longrightarrow> takeWhile not_slash (xs @ ys) = xs @ takeWhile not_slash ys"
  by (induction xs) (auto simp: not_slash_def)

lemma match_here_complete:
  assumes "owner \<noteq> []" "repo \<noteq> []" "CHR ''/'' \<notin> set owner" "CHR ''/'' \<notin> set repo"
  shows "match_here (''github.com/'' @ owner @ ''/'' @ repo @ post) =
           Some (owner @ ''/'' @ repo @ takeWhile not_slash post)"
proof -
  have t: "takeWhile not_slash (owner @ ''/'' @ repo @ post) = owner"
    using takeWhile_component[OF assms(3)] by simp
  have d: "dropWhile not_slash (owner @ ''/'' @ repo @ post) = CHR ''/'' # (repo @ post)"
    using dropWhile_component[OF assms(3)] by simp
  have r: "takeWhile not_slash (repo @ post) = repo @ takeWhile not_slash post"
    by (rule takeWhile_prefix_component[OF assms(4)])
  show ?thesis
    unfolding match_here_def strip_prefix_append
    using assms(1,2) by (simp add: t d r Let_def del: append.simps)
qed

lemma match_here_sound:
  assumes "match_here s = Some g"
  shows "\<exists>owner repo post. s = ''github.com/'' @ owner @ ''/'' @ repo @ post
           \<and> owner \<noteq> [] \<and> repo \<noteq> [] \<and> CHR ''/'' \<notin> set owner \<and> CHR ''/'' \<notin> set repo
           \<and> (post = [] \<or> hd post = CHR ''/'') \<and> g = owner @ ''/'' @ repo"
proof -
  from assms obtain r1 where r1: "strip_prefix ''github.com/'' s = Some r1"
    by (auto simp: match_here_def split: option.splits)
  let ?owner = "takeWhile not_slash r1"
  from assms r1 have o: "?owner \<noteq> []"
    by (auto simp: match_here_def Let_def split: if_splits)
  from assms r1 o obtain c r2 where d: "dropWhile not_slash r1 = c # r2"
    by (cases "dropWhile not_slash r1") (auto simp: match_here_def Let_def)
  let ?repo = "takeWhile not_slash r2"
  let ?post = "dropWhile not_slash r2"
  from assms r1 o d have rp: "?repo \<noteq> []" and g: "g = ?owner @ ''/'' @ ?repo"
    by (auto simp: match_here_def Let_def split: if_splits)
  have c: "c = CHR ''/''"
    using hd_dropWhile[of not_slash r1] d by (simp add: not_slash_def)
  have "r1 = ?owner @ dropWhile not_slash r1" by simp
  then have r1eq: "r1 = ?owner @ ''/'' @ ?repo @ ?post" using d c by simp
  have s: "s = ''github.com/'' @ ?owner @ ''/'' @ ?repo @ ?post"
    using strip_prefix_Some[OF r1] r1eq by simp
  have so: "CHR ''/'' \<notin> set ?owner" and sr: "CHR ''/'' \<notin> set ?repo"
    using set_takeWhileD[of "CHR ''/''" not_slash] by (auto simp: not_slash_def)
  have p: "?post = [] \<or> hd ?post = CHR ''/''"
    using hd_dropWhile[of not_slash r2] by (auto simp: not_slash_def)
  from s o rp so sr p g show ?thesis by blast
qed

lemma match_first_None:
  "match_first s = None \<longleftrightarrow> (\<forall>pre t. s = pre @ t \<longrightarrow> match_here t = None)"
proof (induction s)
  case Nil
  then show ?case by simp
next
  case (Cons c s)
  show ?case
  proof
    assume n: "match_first (c # s) = None"
    then have h: "match_here (c # s) = None" and r: "match_first s = None"
      by (auto split: option.splits)
    show "\<forall>pre t. c # s = pre @ t \<longrightarrow> match_here t = None"
    proof (intro allI impI)
      fix pre t assume e: "c # s = pre @ t"
      show "match_here t = None"
      proof (cases pre)
        case Nil
        then show ?thesis using e h by simp
      next
        case (Cons a pre')
        then have "s = pre' @ t" using e by simp
        then show ?thesis using r Cons.IH by blast
      qed
    qed
  next
    assume a: "\<forall>pre t. c # s = pre @ t \<longrightarrow> match_here t = None"
    then have h: "match_here (c # s) = None" by (metis append_Nil)
    have "\<forall>pre t. s = pre @ t \<longrightarrow> match_here t = None"
      using a by (metis append_Cons)
    then have "match_first s = None" using Cons.IH by blast
    with h show "match_first (c # s) = None" by simp
  qed
qed

lemma match_first_Some:
  "match_first s = Some g \<Longrightarrow>
     \<exists>pre t. s = pre @ t \<and> match_here t = Some g
       \<and> (\<forall>pre' t' g'. s = pre' @ t' \<and> match_here t' = Some g' \<longrightarrow> length pre \<le> length pre')"
proof (induction s)
  case Nil
  then have "match_here [] = Some g" by simp
  then show ?case by (intro exI[of _ "[]"]) simp
next
  case (Cons c s)
  show ?case
  proof (cases "match_here (c # s)")
    case (Some g')
    then have "g' = g" using Cons.prems by simp
    then have "match_here (c # s) = Some g" using Some by simp
    then show ?thesis by (intro exI[of _ "[]"] exI[of _ "c # s"]) simp
  next
    case None
    then have "match_first s = Some g" using Cons.prems by simp
    from Cons.IH[OF this] obtain pre t where p: "s = pre @ t" "match_here t = Some g"
      and m: "\<forall>pre' t' g'. s = pre' @ t' \<and> match_here t' = Some g' \<longrightarrow> length pre \<le> length pre'"
      by blast
    have "length (c # pre) \<le> length pre'" if "c # s = pre' @ t'" "match_here t' = Some g'"
      for pre' t' g'
    proof (cases pre')
      case Nil
      then show ?thesis using that None by simp
    next
      case (Cons a q)
      then have "s = q @ t'" using that(1) by simp
      then have "length pre \<le> length q" using m that(2) by blast
      then show ?thesis using Cons by simp
    qed
    then show ?thesis using p by (intro exI[of _ "c # pre"] exI[of _ t]) auto
  qed
qed

text \<open>
  Claim C6. \<open>getGitHubUrl\<close> returns null exactly when the input has no substring
  \<^verbatim>\<open>github.com/owner/repo\<close> with two non-empty components free of slashes. Otherwise it
  returns \<^verbatim>\<open>https://github.com/\<close> followed by \<^verbatim>\<open>owner/repo\<close>, where the two components
  stand right after the first \<^verbatim>\<open>github.com/\<close> that is followed by such a pair, and the
  second one ends at the next slash or at the end of the input.
\<close>

theorem getGitHubUrl_first_repo:
  "(getGitHubUrl s = None \<longleftrightarrow>
      \<not> (\<exists>pre owner repo post. s = pre @ ''github.com/'' @ owner @ ''/'' @ repo @ post
            \<and> owner \<noteq> [] \<and> repo \<noteq> [] \<and> CHR ''/'' \<notin> set owner \<and> CHR ''/'' \<notin> set repo))
   \<and> (\<forall>u. getGitHubUrl s = Some u \<longrightarrow>
        (\<exists>pre owner repo post. s = pre @ ''github.com/'' @ owner @ ''/'' @ repo @ post
            \<and> owner \<noteq> [] \<and> repo \<noteq> [] \<and> CHR ''/'' \<notin> set owner \<and> CHR ''/'' \<notin> set repo
            \<and> (post = [] \<or> hd post = CHR ''/'')
            \<and> u = ''https://github.com/'' @ owner @ ''/'' @ repo
            \<and> (\<forall>pre' owner' repo' post'.
                  s = pre' @ ''github.com/'' @ owner' @ ''/'' @ repo' @ post'
                  \<and> owner' \<noteq> [] \<and> repo' \<noteq> []
                  \<and> CHR ''/'' \<notin> set owner' \<and> CHR ''/'' \<notin> set repo'
                  \<longrightarrow> length pre \<le> length pre')))"
proof -
  let ?occ = "\<lambda>pre owner repo post. s = pre @ ''github.com/'' @ owner @ ''/'' @ repo @ post
            \<and> owner \<noteq> [] \<and> repo \<noteq> [] \<and> CHR ''/'' \<notin> set owner \<and> CHR ''/'' \<notin> set repo"
  have here: "\<exists>g. s = pre @ (''github.com/'' @ owner @ ''/'' @ repo @ post)
                \<and> match_here (''github.com/'' @ owner @ ''/'' @ repo @ post) = Some g"
    if "?occ pre owner repo post" for pre owner repo post
    using that match_here_complete[of owner repo post] by blast
  have none: "getGitHubUrl s = None \<longleftrightarrow> \<not> (\<exists>pre owner repo post. ?occ pre owner repo post)"
  proof
    assume "getGitHubUrl s = None"
    then have "match_first s = None" by (simp add: getGitHubUrl_def split: option.splits)
    then have n: "\<forall>pre t. s = pre @ t \<longrightarrow> match_here t = None" by (simp only: match_first_None)
    show "\<not> (\<exists>pre owner repo post. ?occ pre owner repo post)"
    proof
      assume "\<exists>pre owner repo post. ?occ pre owner repo post"
      then obtain pre owner repo post where "?occ pre owner repo post" by blast
      from here[OF this] n show False by force
    qed
  next
    assume no: "\<not> (\<exists>pre owner repo post. ?occ pre owner repo post)"
    have "match_here t = None" if "s = pre @ t" for pre t
    proof (cases "match_here t")
      case None
      then show ?thesis .
    next
      case (Some g)
      from match_here_sound[OF this] obtain owner repo post where
        "t = ''github.com/'' @ owner @ ''/'' @ repo @ post" "owner \<noteq> []" "repo \<noteq> []"
        "CHR ''/'' \<notin> set owner" "CHR ''/'' \<notin> set repo" by blast
      with that have "?occ pre owner repo post" by simp
      with no show ?thesis by blast
    qed
    then have "match_first s = None" by (simp only: match_first_None) blast
    then show "getGitHubUrl s = None" by (simp add: getGitHubUrl_def)
  qed
  have some: "\<exists>pre owner repo post. ?occ pre owner repo post
            \<and> (post = [] \<or> hd post = CHR ''/'')
            \<and> u = ''https://github.com/'' @ owner @ ''/'' @ repo
            \<and> (\<forall>pre' owner' repo' post'. ?occ pre' owner' repo' post' \<longrightarrow> length pre \<le> length pre')"
    if "getGitHubUrl s = Some u" for u
  proof -
    from that obtain g where g: "match_first s = Some g" and u: "u = ''https://github.com/'' @ g"
      by (auto simp: getGitHubUrl_def split: option.splits)
    from match_first_Some[OF g] obtain pre t where p: "s = pre @ t" "match_here t = Some g"
      and m: "\<forall>pre' t' g'. s = pre' @ t' \<and> match_here t' = Some g' \<longrightarrow> length pre \<le> length pre'"
      by blast
    from match_here_sound[OF p(2)] obtain owner repo post where
      d: "t = ''github.com/'' @ owner @ ''/'' @ repo @ post" "owner \<noteq> []" "repo \<noteq> []"
        "CHR ''/'' \<notin> set owner" "CHR ''/'' \<notin> set repo" "post = [] \<or> hd post = CHR ''/''"
        "g = owner @ ''/'' @ repo" by blast
    have occ: "?occ pre owner repo post" using p(1) d by simp
    have least: "length pre \<le> length pre'" if "?occ pre' owner' repo' post'"
      for pre' owner' repo' post'
      using here[OF that] m by blast
    from occ d(6) u d(7) least show ?thesis by blast
  qed
  from none some show ?thesis by blast
qed

theorem getGitHubUrl_first_repo_witness:
  "getGitHubUrl (archive_url pkg_a) = Some ''https://github.com/espanso/hub''
   \<and> (\<exists>pre owner repo post.
         archive_url pkg_a = pre @ ''github.com/'' @ owner @ ''/'' @ repo @ post
         \<and> ''https://github.com/espanso/hub'' = ''https://github.com/'' @ owner @ ''/'' @ repo)
   \<and> getGitHubUrl ''https://gitlab.com/espanso/hub/emoji.zip'' = None
   \<and> \<not> (\<exists>pre owner repo post.
           ''https://gitlab.com/espanso/hub/emoji.zip''
             = pre @ ''github.com/'' @ owner @ ''/'' @ repo @ post
           \<and> owner \<noteq> [] \<and> repo \<noteq> [] \<and> CHR ''/'' \<notin> set owner \<and> CHR ''/'' \<notin> set repo)"
proof -
  have a: "getGitHubUrl (archive_url pkg_a) = Some ''https://github.com/espanso/hub''"
    by code_simp
  have b: "getGitHubUrl ''https://gitlab.com/espanso/hub/emoji.zip'' = None" by code_simp
  from getGitHubUrl_first_repo [of "archive_url pkg_a"] a
  have c: "\<exists>pre owner repo post.
         archive_url pkg_a = pre @ ''github.com/'' @ owner @ ''/'' @ repo @ post
         \<and> ''https://github.com/espanso/hub'' = ''https://github.com/'' @ owner @ ''/'' @ repo"
    by blast
  from getGitHubUrl_first_repo [of "''https://gitlab.com/espanso/hub/emoji.zip''"] b
  have d: "\<not> (\<exists>pre owner repo post.
           ''https://gitlab.com/espanso/hub/emoji.zip''
             = pre @ ''github.com/'' @ owner @ ''/'' @ repo @ post
           \<and> owner \<noteq> [] \<and> repo \<noteq> [] \<and> CHR ''/'' \<notin> set owner \<and> CHR ''/'' \<notin> set repo)"
    by blast
  from a b c d show ?thesis by blast
qed


section \<open>One fetch in a build process\<close>

lemma fetched_once_init: "fetched_once url init"
  by (simp add: fetched_once_def)

lemma fetched_onceE:
  assumes "fetched_once url w" and "w \<noteq> init"
  obtains s where "requests w = [url]" and "fetchPromise w = Some 0" and "promises w = [s]"
    and "cache_agrees s (cachedPackagesIndex w)"
proof -
  from assms have r: "requests w = [url]" and f: "fetchPromise w = Some 0"
    and c: "case promises w of [s] \<Rightarrow> cache_agrees s (cachedPackagesIndex w) | _ \<Rightarrow> False"
    by (auto simp: fetched_once_def)
  from c obtain s where "promises w = [s]" and "cache_agrees s (cachedPackagesIndex w)"
    by (auto split: list.splits)
  with r f that show thesis by blast
qed

lemma fetched_onceI:
  "requests w = [url] \<Longrightarrow> fetchPromise w = Some 0 \<Longrightarrow> promises w = [s] \<Longrightarrow>
   cache_agrees s (cachedPackagesIndex w) \<Longrightarrow> fetched_once url w"
  by (simp add: fetched_once_def)

lemma call_init:
  "fetchPackagesIndex url init =
     (Promise 0, \<lparr>cachedPackagesIndex = None, fetchPromise = Some 0,
                   promises = [AwaitingFetch], requests = [url]\<rparr>)"
  by (simp add: fetchPackagesIndex_def init_def Let_def)

lemma call_later:
  assumes "requests w = [url]" "fetchPromise w = Some 0" "promises w = [s]"
    "cache_agrees s (cachedPackagesIndex w)"
  shows "fetchPackagesIndex url w =
           ((case s of Fulfilled idx \<Rightarrow> Value idx | _ \<Rightarrow> Promise 0), w)"
  using assms by (cases s) (auto simp: fetchPackagesIndex_def cache_agrees_def)

lemma fetched_once_call: "fetched_once url w \<Longrightarrow> fetched_once url (snd (fetchPackagesIndex url w))"
proof (cases "w = init")
  case True
  then show ?thesis
    by (simp add: call_init fetched_once_def cache_agrees_def)
next
  case False
  assume "fetched_once url w"
  from fetched_onceE[OF this False] obtain s where h: "requests w = [url]"
    "fetchPromise w = Some 0" "promises w = [s]" "cache_agrees s (cachedPackagesIndex w)"
    by blast
  from call_later[OF h] have "snd (fetchPackagesIndex url w) = w" by simp
  then show ?thesis using \<open>fetched_once url w\<close> by simp
qed

lemma fetch_settled_init: "fetch_settled url p fetched init = init"
  by (simp add: fetch_settled_def init_def)

lemma json_settled_init: "json_settled safeParse p parsed init = init"
  by (simp add: json_settled_def init_def)

lemma fetched_once_fetch_settled:
  assumes "fetched_once url w"
  shows "fetched_once url (fetch_settled url p fetched w)"
proof (cases "w = init")
  case True
  then show ?thesis using assms by (simp add: fetch_settled_init)
next
  case False
  from fetched_onceE[OF assms False] obtain s where h: "requests w = [url]"
    "fetchPromise w = Some 0" "promises w = [s]" "cache_agrees s (cachedPackagesIndex w)"
    by blast
  show ?thesis
  proof (cases "p < length (promises w) \<and> promises w ! p = AwaitingFetch")
    case True
    then have p0: "p = 0" and s: "s = AwaitingFetch" using h(3) by auto
    have c: "cachedPackagesIndex w = None" using h(4) s by (simp add: cache_agrees_def)
    show ?thesis
      by (cases "check_response url fetched")
         (simp_all add: fetch_settled_def p0 s h c fetched_once_def cache_agrees_def)
  next
    case False
    then have "fetch_settled url p fetched w = w"
      unfolding fetch_settled_def by (simp only: if_False)
    then show ?thesis using assms by simp
  qed
qed

lemma fetched_once_json_settled:
  assumes "fetched_once url w"
  shows "fetched_once url (json_settled safeParse p parsed w)"
proof (cases "w = init")
  case True
  then show ?thesis using assms by (simp add: json_settled_init)
next
  case False
  from fetched_onceE[OF assms False] obtain s where h: "requests w = [url]"
    "fetchPromise w = Some 0" "promises w = [s]" "cache_agrees s (cachedPackagesIndex w)"
    by blast
  show ?thesis
  proof (cases "p < length (promises w) \<and> promises w ! p = AwaitingJson")
    case True
    then have p0: "p = 0" and s: "s = AwaitingJson" using h(3) by auto
    show ?thesis
      using h(4)
      by (cases "validate safeParse parsed")
         (simp_all add: json_settled_def p0 s h(1-3) fetched_once_def cache_agrees_def)
  next
    case False
    then have "json_settled safeParse p parsed w = w"
      unfolding json_settled_def by (simp only: if_False)
    then show ?thesis using assms by simp
  qed
qed

lemma fetched_once_step: "fetched_once url w \<Longrightarrow> fetched_once url (step safeParse url e w)"
  by (cases e) (simp_all add: fetched_once_call fetched_once_fetch_settled fetched_once_json_settled)

lemma fetched_once_run_from:
  "fetched_once url w \<Longrightarrow> fetched_once url (run safeParse url es w)"
  unfolding run_def by (induction es arbitrary: w) (simp_all add: fetched_once_step)

lemma fetched_once_run: "fetched_once url (run safeParse url es init)"
  by (rule fetched_once_run_from[OF fetched_once_init])

lemma rejected_step:
  assumes "requests w = [url]" "fetchPromise w = Some 0" "promises w = [Rejected err]"
    "cachedPackagesIndex w = None"
  shows "step safeParse url e w = w"
  using assms
  by (cases e) (auto simp: fetchPackagesIndex_def fetch_settled_def json_settled_def)

lemma rejected_run:
  assumes "requests w = [url]" "fetchPromise w = Some 0" "promises w = [Rejected err]"
    "cachedPackagesIndex w = None"
  shows "run safeParse url es w = w"
  unfolding run_def using assms
  by (induction es) (simp_all add: rejected_step)

text \<open>
  Claim C1. Whatever calls of \<open>fetchPackagesIndex\<close> and arrivals of the response and of
  its body make up a build process, at most one request is sent. The first call sends it
  and returns a new promise; every later call leaves the state as it is: while that
  promise is pending the call returns it, once it is fulfilled the call returns the
  cached index, and once it is rejected the call returns the rejected promise and no
  later event changes the state, so nothing is fetched again.
\<close>

theorem single_fetch:
  assumes "w = run safeParse url es init"
  shows "length (requests w) \<le> 1
    \<and> fetchPackagesIndex url init =
        (Promise 0, init\<lparr>fetchPromise := Some 0, promises := [AwaitingFetch], requests := [url]\<rparr>)
    \<and> (requests w = [] \<longrightarrow> w = init)
    \<and> (requests w \<noteq> [] \<longrightarrow> snd (fetchPackagesIndex url w) = w \<and> fetchPromise w = Some 0)
    \<and> (first_promise w = Some AwaitingFetch \<or> first_promise w = Some AwaitingJson
          \<longrightarrow> fst (fetchPackagesIndex url w) = Promise 0)
    \<and> (\<forall>idx. first_promise w = Some (Fulfilled idx)
          \<longrightarrow> cachedPackagesIndex w = Some idx \<and> fst (fetchPackagesIndex url w) = Value idx)
    \<and> (\<forall>err. first_promise w = Some (Rejected err)
          \<longrightarrow> fst (fetchPackagesIndex url w) = Promise 0
              \<and> (\<forall>es'. run safeParse url es' w = w))"
proof -
  have inv: "fetched_once url w" unfolding assms by (rule fetched_once_run)
  have i0: "fetchPackagesIndex url init =
        (Promise 0, init\<lparr>fetchPromise := Some 0, promises := [AwaitingFetch], requests := [url]\<rparr>)"
    unfolding call_init by (simp add: init_def)
  show ?thesis
  proof (cases "w = init")
    case True
    then have "requests w = []" "first_promise w = None"
      by (simp_all add: init_def first_promise_def)
    then show ?thesis using i0 True by simp
  next
    case False
    from fetched_onceE[OF inv False] obtain s where h: "requests w = [url]"
      "fetchPromise w = Some 0" "promises w = [s]" "cache_agrees s (cachedPackagesIndex w)"
      by blast
    note c = call_later[OF h]
    have fp: "first_promise w = Some s" using h(3) by (simp add: first_promise_def)
    have a: "length (requests w) \<le> 1" using h(1) by simp
    have b: "snd (fetchPackagesIndex url w) = w \<and> fetchPromise w = Some 0"
      using c h(2) by simp
    have p: "fst (fetchPackagesIndex url w) = Promise 0"
      if "first_promise w = Some AwaitingFetch \<or> first_promise w = Some AwaitingJson"
      using that fp c by auto
    have f: "cachedPackagesIndex w = Some idx \<and> fst (fetchPackagesIndex url w) = Value idx"
      if "first_promise w = Some (Fulfilled idx)" for idx
      using that fp c h(4) by (auto simp: cache_agrees_def)
    have r: "fst (fetchPackagesIndex url w) = Promise 0 \<and> (\<forall>es'. run safeParse url es' w = w)"
      if "first_promise w = Some (Rejected err)" for err
    proof -
      from that fp have s: "s = Rejected err" by simp
      then have "cachedPackagesIndex w = None" using h(4) by (simp add: cache_agrees_def)
      with rejected_run[of w url err safeParse] h s
      have "\<forall>es'. run safeParse url es' w = w" by simp
      moreover have "fst (fetchPackagesIndex url w) = Promise 0" using c s by simp
      ultimately show ?thesis by blast
    qed
    have n: "requests w = [] \<longrightarrow> w = init" using h(1) by simp
    from a i0 n b p f r show ?thesis by blast
  qed
qed

theorem single_fetch_witness:
  "requests (run schema_ex (PACKAGE_INDEX_URL None)
       [Call, Call, FetchSettled 0 (Inr response_missing), Call] init)
     = [PACKAGE_INDEX_URL None]
   \<and> first_promise (run schema_ex (PACKAGE_INDEX_URL None)
       [Call, Call, FetchSettled 0 (Inr response_missing), Call] init)
     = Some (Rejected (HttpError (PACKAGE_INDEX_URL None) 404 ''Not Found''))
   \<and> fst (fetchPackagesIndex (PACKAGE_INDEX_URL None)
        (run schema_ex (PACKAGE_INDEX_URL None)
           [Call, Call, FetchSettled 0 (Inr response_missing), Call] init)) = Promise 0
   \<and> run schema_ex (PACKAGE_INDEX_URL None) [Call, FetchSettled 0 (Inr response_ok), Call]
        (run schema_ex (PACKAGE_INDEX_URL None)
           [Call, Call, FetchSettled 0 (Inr response_missing), Call] init)
     = run schema_ex (PACKAGE_INDEX_URL None)
           [Call, Call, FetchSettled 0 (Inr response_missing), Call] init
   \<and> first_promise (run schema_ex (PACKAGE_INDEX_URL None)
       [Call, FetchSettled 0 (Inr response_ok), Call, JsonSettled 0 (Inr index_two), Call] init)
     = Some (Fulfilled index_two)
   \<and> fst (fetchPackagesIndex (PACKAGE_INDEX_URL None)
        (run schema_ex (PACKAGE_INDEX_URL None)
           [Call, FetchSettled 0 (Inr response_ok), Call, JsonSettled 0 (Inr index_two), Call]
           init)) = Value index_two"
proof -
  let ?u = "PACKAGE_INDEX_URL None"
  let ?w1 = "run schema_ex ?u [Call, Call, FetchSettled 0 (Inr response_missing), Call] init"
  let ?w2 = "run schema_ex ?u
      [Call, FetchSettled 0 (Inr response_ok), Call, JsonSettled 0 (Inr index_two), Call] init"
  have r1: "requests ?w1 = [?u]" by code_simp
  have p1: "first_promise ?w1 = Some (Rejected (HttpError ?u 404 ''Not Found''))" by code_simp
  have p2: "first_promise ?w2 = Some (Fulfilled index_two)" by code_simp
  note t1 = single_fetch [OF refl, of schema_ex ?u
      "[Call, Call, FetchSettled 0 (Inr response_missing), Call]"]
  note t2 = single_fetch [OF refl, of schema_ex ?u
      "[Call, FetchSettled 0 (Inr response_ok), Call, JsonSettled 0 (Inr index_two), Call]"]
  from t1 p1 have a: "fst (fetchPackagesIndex ?u ?w1) = Promise 0" by blast
  from t1 p1 have b: "run schema_ex ?u [Call, FetchSettled 0 (Inr response_ok), Call] ?w1 = ?w1"
    by blast
  from t2 p2 have c: "fst (fetchPackagesIndex ?u ?w2) = Value index_two" by blast
  from r1 p1 a b p2 c show ?thesis by blast
qed

end
